theory Spec2Isabelle
  imports Main "HOL-Library.AList"
begin

unbundle bit_operations_syntax

section \<open>Values, tokens and functions\<close>

text \<open>
  A token is any JavaScript value used as a key of the \<open>Map\<close> of records; keys are
  compared by identity (strings by content). The shapes that matter to the code are
  functions (\<open>typeof provide == 'function'\<close>), other objects, strings and \<open>undefined\<close>.
  Objects and functions carry the number that stands for their identity. The class
  \<open>Injector\<close> is the function with identity 0. Forward references (\<open>resolveForwardRef\<close>,
  which is not part of the sources at hand) are taken as already unwrapped. A string is
  kept as the list of the bytes of its UTF-8 encoding.
\<close>

datatype token = TFunction nat | TObject nat | TString string | TUndefined

definition Injector :: token where
  "Injector = TFunction 0"

text \<open>
  The values a provider can hold or produce. \<open>THROW_IF_NOT_FOUND\<close> is the exported
  sentinel object; \<open>VInjector a\<close> is the injector instance at address \<open>a\<close>.
\<close>

datatype jsval =
    VUndefined
  | VNull
  | THROW_IF_NOT_FOUND
  | VNum int
  | VStr string
  | VObj nat
  | VArr "jsval list"
  | VInjector nat

text \<open>
  The \<open>fn\<close> of a record: the module-private \<open>IDENT\<close> and \<open>MULTI_PROVIDER_FN\<close>, or a
  function of the caller, by identity (\<open>Fn k\<close> is the same function as the token
  \<open>TFunction k\<close>).
\<close>

datatype fnref = IDENT | MULTI_PROVIDER_FN | Fn nat

text \<open>
  The cache slot \<open>value\<close> of a record: the private array \<open>EMPTY\<close>, the marker
  \<open>CIRCULAR\<close>, or a value. \<open>CIRCULAR\<close> is the private function \<open>IDENT\<close>, and the code
  tests for it with \<open>value == CIRCULAR\<close>. That comparison converts the function to a
  string when the other side is a string, so it holds also for the string that is the
  text of \<open>IDENT\<close>. \<open>IDENT_text\<close> stands for that text (it is what the compiler leaves
  of the function; nothing below depends on which text it is). The test
  \<open>value === EMPTY\<close> is a comparison of identity.
\<close>

datatype slot = EMPTY | CIRCULAR | Val jsval

definition IDENT_text :: string where
  "IDENT_text = ''function (value) {'' @ [CHR 0x0A] @ ''    return value;'' @ [CHR 0x0A] @ ''}''"

definition eq_CIRCULAR :: "slot \<Rightarrow> bool" where
  "eq_CIRCULAR s = (case s of
                      CIRCULAR \<Rightarrow> True
                    | Val (VStr text) \<Rightarrow> text = IDENT_text
                    | _ \<Rightarrow> False)"

definition OptionFlags_Optional :: int where
  "OptionFlags_Optional = push_bit 0 1"

definition OptionFlags_CheckSelf :: int where
  "OptionFlags_CheckSelf = push_bit 1 1"

definition OptionFlags_CheckParent :: int where
  "OptionFlags_CheckParent = push_bit 2 1"

definition OptionFlags_Default :: int where
  "OptionFlags_Default = OptionFlags_CheckSelf OR OptionFlags_CheckParent"

record DependencyRecord =
  token :: token
  options :: int

record Record =
  fn :: fnref
  useNew :: bool
  deps :: "DependencyRecord list"
  "value" :: slot

text \<open>
  What the property \<open>ngTempTokenPath\<close> or \<open>ngTokenPath\<close> of an error holds: nothing
  (\<open>undefined\<close>, or another falsy value that is not \<open>null\<close>), \<open>null\<close>, an array of tokens,
  or a truthy value that is not an array and has no \<open>unshift\<close>; the latter comes with the
  text that \<open>formatError\<close> prints for it.
\<close>

datatype pathprop = NoPath | NullPath | Path "token list" | BadPath string

text \<open>
  An \<open>Error\<close> object with the two properties the injector hangs on it. A frozen object
  takes no write: in a module, which is strict code, the assignment throws a
  \<open>TypeError\<close>. An error is followed as a value: what a function of the caller has
  caught is what it can throw again.
\<close>

record Error =
  message :: string
  ngTempTokenPath :: pathprop
  ngTokenPath :: pathprop
  frozen :: bool

text \<open>
  What user code throws: an \<open>Error\<close>; or a value that is not an \<open>Error\<close>, given by the
  string that \<open>new Error(e)\<close> makes of it; or such a value that cannot be made a string,
  as a symbol.
\<close>

datatype thrown = ThrowError Error | ThrowOther string | ThrowSymbol

definition new_Error :: "string \<Rightarrow> Error" where
  "new_Error msg = \<lparr>message = msg, ngTempTokenPath = NoPath, ngTokenPath = NoPath, frozen = False\<rparr>"

text \<open>
  The errors that the engine raises inside a \<open>catch\<close> block: \<open>new Error(e)\<close> for a
  symbol, a write to a frozen object, and \<open>path.unshift\<close> where \<open>path\<close> has no such
  method. The texts are those of V8.
\<close>

definition TypeError_symbol :: Error where
  "TypeError_symbol = new_Error ''Cannot convert a Symbol value to a string''"

definition TypeError_frozen :: Error where
  "TypeError_frozen = new_Error ''Cannot assign to read only property of object''"

definition TypeError_unshift :: Error where
  "TypeError_unshift = new_Error ''path.unshift is not a function''"

text \<open>
  An injector is the terminal \<open>_NullInjector\<close> or a \<open>StaticInjector\<close> with its address,
  its \<open>_records\<close> (a \<open>Map\<close>: an association list in insertion order) and its parent. A
  value of this type is the whole chain, and it is the state that calls change: the
  injector number 0 of the chain is the outermost one, number 1 its parent, and so on;
  past the last \<open>StaticInjector\<close> every number names the null injector.
\<close>

type_synonym records = "(token \<times> Record) list"

datatype injector = NullInjector | StaticInjector nat records injector

datatype injref = NULL_INJECTOR | Nth nat

fun records_at :: "injector \<Rightarrow> nat \<Rightarrow> records option" where
  "records_at NullInjector k = None"
| "records_at (StaticInjector a R p) 0 = Some R"
| "records_at (StaticInjector a R p) (Suc k) = records_at p k"

fun update_at :: "nat \<Rightarrow> (records \<Rightarrow> records) \<Rightarrow> injector \<Rightarrow> injector" where
  "update_at k f NullInjector = NullInjector"
| "update_at 0 f (StaticInjector a R p) = StaticInjector a (f R) p"
| "update_at (Suc k) f (StaticInjector a R p) = StaticInjector a R (update_at k f p)"

text \<open>\<open>records.get(token)\<close> and \<open>record.value = v\<close> in injector number \<open>k\<close>.\<close>

definition lookup :: "injector \<Rightarrow> nat \<Rightarrow> token \<Rightarrow> Record option" where
  "lookup self k tok = (case records_at self k of None \<Rightarrow> None | Some R \<Rightarrow> map_of R tok)"

definition setValue :: "nat \<Rightarrow> token \<Rightarrow> slot \<Rightarrow> injector \<Rightarrow> injector" where
  "setValue k tok v self = update_at k (AList.map_entry tok (\<lambda>r. r\<lparr>value := v\<rparr>)) self"

text \<open>
  A function of the caller is a program that returns, throws, or calls \<open>get\<close> on an
  injector of the chain and goes on with what that call returned or threw. Which program
  a function runs depends on the calls made so far, on whether it was called with
  \<open>new\<close>, and on its arguments. Every call of a record's \<open>fn\<close> is written to a log when it
  ends: the number of the injector, the token whose record is being resolved, the
  function, whether it was called with \<open>new\<close>, and the arguments.
\<close>

datatype prog =
    Return jsval
  | Throw thrown
  | Get injref token "jsval option" "Error + jsval \<Rightarrow> prog"

type_synonym invocation = "nat \<times> token \<times> fnref \<times> bool \<times> jsval list"

type_synonym userfn = "invocation list \<Rightarrow> nat \<Rightarrow> bool \<Rightarrow> jsval list \<Rightarrow> prog"

section \<open>Error messages\<close>

text \<open>The constant \<open>NO_NEW_LINE\<close> is the character U+0275, in UTF-8 the bytes C9 B5.\<close>

definition NO_NEW_LINE :: string where
  "NO_NEW_LINE = [CHR 0xC9, CHR 0xB5]"

fun replace_NEW_LINE :: "string \<Rightarrow> string" where
  "replace_NEW_LINE [] = []"
| "replace_NEW_LINE (c # cs) =
     (if c = CHR 0x0A then CHR 0x0A # CHR '' '' # CHR '' '' # replace_NEW_LINE cs
      else c # replace_NEW_LINE cs)"

fun join :: "string \<Rightarrow> string list \<Rightarrow> string" where
  "join sep [] = []"
| "join sep [s] = s"
| "join sep (s # t # ss) = s @ sep @ join sep (t # ss)"

text \<open>
  \<open>formatError\<close> for what \<open>get\<close> passes as \<open>obj\<close>, the \<open>ngTempTokenPath\<close> of the error.
  \<open>text.charAt(1) == NO_NEW_LINE\<close> asks for the two bytes of that character after the
  line feed, and \<open>text.substr(2)\<close> drops the three bytes. \<open>stringify\<close> (not part of the
  sources at hand) is a parameter. For \<open>null\<close> the loop over the keys finds none.
\<close>

definition formatError :: "(token \<Rightarrow> string) \<Rightarrow> string \<Rightarrow> pathprop \<Rightarrow> string" where
  "formatError stringify text obj =
     (let text' = (case text of
                     c0 # c1 # c2 # rest \<Rightarrow>
                       if c0 = CHR 0x0A \<and> [c1, c2] = NO_NEW_LINE then rest else text
                   | _ \<Rightarrow> text);
          context = (case obj of
                       Path p \<Rightarrow> join '' -> '' (map stringify p)
                     | NoPath \<Rightarrow> stringify TUndefined
                     | NullPath \<Rightarrow> ''{}''
                     | BadPath s \<Rightarrow> s)
      in ''StaticInjectorError['' @ context @ '']: '' @ replace_NEW_LINE text')"

section \<open>Resolution\<close>

definition NullInjector_get ::
  "(token \<Rightarrow> string) \<Rightarrow> token \<Rightarrow> jsval option \<Rightarrow> Error + jsval" where
  "NullInjector_get stringify tok arg =
     (let notFoundValue = (case arg of None \<Rightarrow> THROW_IF_NOT_FOUND
                                     | Some VUndefined \<Rightarrow> THROW_IF_NOT_FOUND
                                     | Some v \<Rightarrow> v)
      in if notFoundValue = THROW_IF_NOT_FOUND
         then Inl (new_Error (''NullInjectorError: No provider for '' @ stringify tok @ ''!''))
         else Inr notFoundValue)"

text \<open>
  The \<open>catch\<close> block of \<open>tryResolveToken\<close>, applied to what \<open>resolveToken\<close> threw and to
  the state it left behind. The block throws in every case: the error it was given, with
  the token put in front of its path, after the slot has been reset; or, when one of its
  own statements fails, the \<open>TypeError\<close> of that statement, and then the statements after
  it, the reset among them, have not run. A record object is reachable only through its
  key in the map, so \<open>record.value\<close> is read from the map at \<open>token\<close>.
\<close>

definition tryResolveToken_catch ::
  "token \<Rightarrow> Record option \<Rightarrow> thrown \<Rightarrow> injector \<Rightarrow> nat \<Rightarrow> Error \<times> injector" where
  "tryResolveToken_catch tok record e self k =
     (case (case e of
              ThrowError err \<Rightarrow> Some err
            | ThrowOther s \<Rightarrow> Some (new_Error s)
            | ThrowSymbol \<Rightarrow> None) of
        None \<Rightarrow> (TypeError_symbol, self)
      | Some e1 \<Rightarrow>
          if frozen e1 then (TypeError_frozen, self)
          else
            (case ngTempTokenPath e1 of
               BadPath s \<Rightarrow> (TypeError_unshift, self)
             | held \<Rightarrow>
                 (let path = (case held of Path p \<Rightarrow> p | _ \<Rightarrow> []);
                      e2 = e1\<lparr>ngTempTokenPath := Path (tok # path)\<rparr>
                  in if record \<noteq> None \<and>
                        (case lookup self k tok of Some r \<Rightarrow> eq_CIRCULAR (value r) | None \<Rightarrow> False)
                     then (e2, setValue k tok EMPTY self)
                     else (e2, self))))"

text \<open>
  The \<open>catch\<close> block of \<open>StaticInjector.get\<close>. It is given what \<open>tryResolveToken\<close> throws,
  which is never frozen; on a frozen error its first write would fail.
\<close>

definition StaticInjector_get_catch :: "(token \<Rightarrow> string) \<Rightarrow> Error \<Rightarrow> Error" where
  "StaticInjector_get_catch stringify e =
     (if frozen e then TypeError_frozen
      else
        (let tokenPath = ngTempTokenPath e
         in e\<lparr>message := formatError stringify (CHR 0x0A # message e) tokenPath,
               ngTokenPath := tokenPath,
               ngTempTokenPath := NullPath\<rparr>))"

text \<open>
  What the two \<open>try\<close> statements make of the result of the call inside them; \<open>None\<close> is
  a call that has not returned.
\<close>

definition catching ::
  "token \<Rightarrow> Record option \<Rightarrow> nat \<Rightarrow> ((thrown + jsval) \<times> injector \<times> invocation list) option \<Rightarrow>
   ((Error + jsval) \<times> injector \<times> invocation list) option" where
  "catching tok record k res =
     (case res of
        None \<Rightarrow> None
      | Some (Inl e, self1, log1) \<Rightarrow>
          (case tryResolveToken_catch tok record e self1 k of
             (e1, self2) \<Rightarrow> Some (Inl e1, self2, log1))
      | Some (Inr v, self1, log1) \<Rightarrow> Some (Inr v, self1, log1))"

definition decorating ::
  "(token \<Rightarrow> string) \<Rightarrow> ((Error + jsval) \<times> injector \<times> invocation list) option \<Rightarrow>
   ((Error + jsval) \<times> injector \<times> invocation list) option" where
  "decorating stringify res =
     (case res of
        None \<Rightarrow> None
      | Some (Inl e, self1, log1) \<Rightarrow> Some (Inl (StaticInjector_get_catch stringify e), self1, log1)
      | Some (Inr v, self1, log1) \<Rightarrow> Some (Inr v, self1, log1))"

text \<open>
  \<open>resolveToken\<close>; the loop over \<open>depRecords\<close> inside it as \<open>resolveDeps\<close>; the run of a
  function of the caller as \<open>run\<close>; and \<open>get\<close> of either class as \<open>get_within\<close>. The state
  is the chain and the log; it is returned also when the call throws (\<open>Inl\<close>). The map
  \<open>records\<close> of the source is given by the number \<open>k\<close> of its injector. The first number
  bounds the depth of nested calls: \<open>None\<close> means the bound was too small. Where the
  source calls \<open>tryResolveToken\<close>, the model calls \<open>resolveToken\<close> inside \<open>catching\<close>.
  The second argument of \<open>get\<close> is \<open>None\<close> when the caller leaves it out;
  \<open>StaticInjector.get\<close> has no default for it, so it is \<open>undefined\<close> there.
\<close>

function (sequential) resolveToken ::
    "(token \<Rightarrow> string) \<Rightarrow> userfn \<Rightarrow> nat \<Rightarrow> token \<Rightarrow> Record option \<Rightarrow> injector \<Rightarrow> nat \<Rightarrow> injref \<Rightarrow>
     jsval \<Rightarrow> invocation list \<Rightarrow> ((thrown + jsval) \<times> injector \<times> invocation list) option"
  and resolveDeps ::
    "(token \<Rightarrow> string) \<Rightarrow> userfn \<Rightarrow> nat \<Rightarrow> DependencyRecord list \<Rightarrow> jsval list \<Rightarrow> injector \<Rightarrow> nat \<Rightarrow>
     injref \<Rightarrow> invocation list \<Rightarrow> ((Error + jsval list) \<times> injector \<times> invocation list) option"
  and run ::
    "(token \<Rightarrow> string) \<Rightarrow> userfn \<Rightarrow> nat \<Rightarrow> prog \<Rightarrow> injector \<Rightarrow> invocation list \<Rightarrow>
     ((thrown + jsval) \<times> injector \<times> invocation list) option"
  and get_within ::
    "(token \<Rightarrow> string) \<Rightarrow> userfn \<Rightarrow> nat \<Rightarrow> injector \<Rightarrow> injref \<Rightarrow> token \<Rightarrow> jsval option \<Rightarrow>
     invocation list \<Rightarrow> ((Error + jsval) \<times> injector \<times> invocation list) option"
where
  "resolveToken stringify call n tok record self k parent notFoundValue log =
     (case record of
        Some r \<Rightarrow>
          if eq_CIRCULAR (value r)
          then Some (Inl (ThrowError (new_Error (NO_NEW_LINE @ ''Circular dependency''))), self, log)
          else
            (case value r of
               EMPTY \<Rightarrow>
                 (case n of
                    0 \<Rightarrow> None
                  | Suc m \<Rightarrow>
                      (case resolveDeps stringify call m (deps r) [] (setValue k tok CIRCULAR self)
                              k parent log of
                         None \<Rightarrow> None
                       | Some (Inl e, self1, log1) \<Rightarrow> Some (Inl (ThrowError e), self1, log1)
                       | Some (Inr args, self1, log1) \<Rightarrow>
                           (case (case fn r of
                                    IDENT \<Rightarrow>
                                      Some (Inr (case args of [] \<Rightarrow> VUndefined | v # _ \<Rightarrow> v),
                                            self1, log1)
                                  | MULTI_PROVIDER_FN \<Rightarrow> Some (Inr (VArr args), self1, log1)
                                  | Fn f \<Rightarrow>
                                      run stringify call m (call log1 f (useNew r) args) self1 log1) of
                              None \<Rightarrow> None
                            | Some (Inl e, self2, log2) \<Rightarrow>
                                Some (Inl e, self2, log2 @ [(k, tok, fn r, useNew r, args)])
                            | Some (Inr v, self2, log2) \<Rightarrow>
                                Some (Inr v, setValue k tok (Val v) self2,
                                      log2 @ [(k, tok, fn r, useNew r, args)]))))
             | CIRCULAR \<Rightarrow>
                 Some (Inl (ThrowError (new_Error (NO_NEW_LINE @ ''Circular dependency''))),
                       self, log)
             | Val v \<Rightarrow> Some (Inr v, self, log))
      | None \<Rightarrow>
          (case n of
             0 \<Rightarrow> None
           | Suc m \<Rightarrow>
               (case get_within stringify call m self parent tok (Some notFoundValue) log of
                  None \<Rightarrow> None
                | Some (Inl e, self1, log1) \<Rightarrow> Some (Inl (ThrowError e), self1, log1)
                | Some (Inr v, self1, log1) \<Rightarrow> Some (Inr v, self1, log1))))"
| "resolveDeps stringify call n [] acc self k parent log = Some (Inr acc, self, log)"
| "resolveDeps stringify call n (depRecord # rest) acc self k parent log =
     (let opts = options depRecord;
          childRecord = (if opts AND OptionFlags_CheckSelf \<noteq> 0
                         then lookup self k (token depRecord) else None);
          useNull = (childRecord = None \<and> opts AND OptionFlags_CheckParent = 0);
          notFoundValue = (if opts AND OptionFlags_Optional \<noteq> 0 then VNull
                           else THROW_IF_NOT_FOUND)
      in case catching (token depRecord) childRecord k
                (resolveToken stringify call n (token depRecord) childRecord self k
                   (if useNull then NULL_INJECTOR else parent) notFoundValue log) of
           None \<Rightarrow> None
         | Some (Inl e, self1, log1) \<Rightarrow> Some (Inl e, self1, log1)
         | Some (Inr v, self1, log1) \<Rightarrow>
             resolveDeps stringify call n rest (acc @ [v]) self1 k parent log1)"
| "run stringify call n (Return v) self log = Some (Inr v, self, log)"
| "run stringify call n (Throw e) self log = Some (Inl e, self, log)"
| "run stringify call n (Get ref tok arg cont) self log =
     (case n of
        0 \<Rightarrow> None
      | Suc m \<Rightarrow>
          (case get_within stringify call m self ref tok arg log of
             None \<Rightarrow> None
           | Some (res, self1, log1) \<Rightarrow> run stringify call m (cont res) self1 log1))"
| "get_within stringify call n self ref tok arg log =
     (case (case ref of NULL_INJECTOR \<Rightarrow> None | Nth k \<Rightarrow> map_option (\<lambda>R. (k, R)) (records_at self k)) of
        None \<Rightarrow> Some (NullInjector_get stringify tok arg, self, log)
      | Some (k, records) \<Rightarrow>
          (let notFoundValue = (case arg of None \<Rightarrow> VUndefined | Some v \<Rightarrow> v);
               record = map_of records tok
           in decorating stringify
                (catching tok record k
                   (resolveToken stringify call n tok record self k (Nth (Suc k))
                      notFoundValue log))))"
  by pat_completeness auto

termination
  by (relation "inv_image (less_than <*lex*> less_than)
        (\<lambda>x. case x of
           Inl (Inl (sf, call, n, tok, record, self, k, parent, nf, log)) \<Rightarrow> (n, 0)
         | Inl (Inr (sf, call, n, ds, acc, self, k, parent, log)) \<Rightarrow> (n, Suc (length ds))
         | Inr (Inl (sf, call, n, p, self, log)) \<Rightarrow> (n, 0)
         | Inr (Inr (sf, call, n, self, ref, tok, arg, log)) \<Rightarrow> (n, Suc 0))") auto

declare resolveToken.simps [simp del] resolveDeps.simps [simp del] run.simps [simp del]
  get_within.simps [simp del]

definition tryResolveToken ::
    "(token \<Rightarrow> string) \<Rightarrow> userfn \<Rightarrow> nat \<Rightarrow> token \<Rightarrow> Record option \<Rightarrow> injector \<Rightarrow> nat \<Rightarrow>
     injref \<Rightarrow> jsval \<Rightarrow> invocation list \<Rightarrow> ((Error + jsval) \<times> injector \<times> invocation list) option"
where
  "tryResolveToken stringify call n tok record self k parent notFoundValue log =
     catching tok record k
       (resolveToken stringify call n tok record self k parent notFoundValue log)"

text \<open>
  A bound on the depth of nested calls that is enough when the functions of the caller
  do not call \<open>get\<close>: every nested call marks one more record of the same map as in
  progress, or moves to the parent. \<open>get\<close> is \<open>get_within\<close> with this bound, on the
  outermost injector of the chain.
\<close>

fun depth :: "injector \<Rightarrow> nat" where
  "depth NullInjector = 0"
| "depth (StaticInjector this records parent) = Suc (length records + depth parent)"

definition get ::
    "(token \<Rightarrow> string) \<Rightarrow> userfn \<Rightarrow> injector \<Rightarrow> token \<Rightarrow> jsval option \<Rightarrow> invocation list \<Rightarrow>
     ((Error + jsval) \<times> injector \<times> invocation list) option"
where
  "get stringify call self tok arg log =
     get_within stringify call (depth self) self (Nth 0) tok arg log"

section \<open>Building the map of records\<close>

text \<open>
  An entry of a \<open>deps\<close> array: a token, or an array (with its identity) of annotations.
  An annotation is \<open>Optional\<close>, \<open>SkipSelf\<close> or \<open>Self\<close> (the class or an instance of it),
  an instance of \<open>Inject\<close>, or anything else, which is taken as the token.
\<close>

datatype annotation = Optional | SkipSelf | Self | Inject token | Annotation token

datatype dep = DepToken token | DepArray nat "annotation list"

text \<open>
  A provider object, with its identity \<open>oid\<close>. \<open>provide\<close> is \<open>None\<close> when the property is
  missing; \<open>useValue\<close> is \<open>None\<close> when the object has no such property and
  \<open>Some VUndefined\<close> when it has it with the value \<open>undefined\<close>; \<open>multi\<close> is
  \<open>provider.multi === true\<close>.
\<close>

record provider =
  oid :: nat
  provide :: "token option"
  useValue :: "jsval option"
  useFactory :: "nat option"
  useExisting :: "token option"
  useClass :: "nat option"
  providerDeps :: "dep list option"
  multi :: bool

text \<open>
  What a list of providers may hold: a falsy value (\<open>null\<close>, \<open>undefined\<close>), an array, a
  function, an object, or any other value.
\<close>

datatype StaticProvider =
    PFalsy
  | PArray "StaticProvider list"
  | PFunction nat
  | PObject provider
  | POther

text \<open>
  \<open>staticError(text, obj)\<close>: the text and the object it is about. The full message
  (\<open>formatError\<close> for an object that is not an array) is not spelled out.
\<close>

datatype errobj = ErrProvider provider | ErrToken token | ErrFunction nat | ErrOther

datatype StaticError = staticError string errobj

definition truthy :: "token \<Rightarrow> bool" where
  "truthy t = (t \<noteq> TString [] \<and> t \<noteq> TUndefined)"

fun annotate :: "annotation list \<Rightarrow> token \<times> int \<Rightarrow> token \<times> int" where
  "annotate [] (tok, opts) = (tok, opts)"
| "annotate (a # as) (tok, opts) =
     annotate as
       (case a of
          Optional \<Rightarrow> (tok, opts OR OptionFlags_Optional)
        | SkipSelf \<Rightarrow> (tok, opts AND NOT OptionFlags_CheckSelf)
        | Self \<Rightarrow> (tok, opts AND NOT OptionFlags_CheckParent)
        | Inject t \<Rightarrow> (t, opts)
        | Annotation t \<Rightarrow> (t, opts))"

definition computeDep :: "dep \<Rightarrow> DependencyRecord" where
  "computeDep d =
     (case d of
        DepToken t \<Rightarrow> \<lparr>token = t, options = OptionFlags_Default\<rparr>
      | DepArray a annotations \<Rightarrow>
          (case annotate annotations (TObject a, OptionFlags_Default) of
             (t, opts) \<Rightarrow> \<lparr>token = t, options = opts\<rparr>))"

definition computeDeps :: "provider \<Rightarrow> StaticError + DependencyRecord list" where
  "computeDeps p =
     (case providerDeps p of
        Some (d # ds) \<Rightarrow> Inr (map computeDep (d # ds))
      | other \<Rightarrow>
          (case useExisting p of
             Some t \<Rightarrow>
               if truthy t then Inr [\<lparr>token = t, options = OptionFlags_Default\<rparr>]
               else if other = None \<and> useValue p = None
                    then Inl (staticError (CHR 0x27 # ''deps'' @ CHR 0x27 # '' required'')
                                (ErrProvider p))
                    else Inr []
           | None \<Rightarrow>
               if other = None \<and> useValue p = None
               then Inl (staticError (CHR 0x27 # ''deps'' @ CHR 0x27 # '' required'')
                           (ErrProvider p))
               else Inr []))"

definition resolveProvider :: "provider \<Rightarrow> StaticError + Record" where
  "resolveProvider p =
     (case computeDeps p of
        Inl e \<Rightarrow> Inl e
      | Inr ds \<Rightarrow>
          (case useValue p of
             Some v \<Rightarrow> Inr \<lparr>fn = IDENT, useNew = False, deps = ds, value = Val v\<rparr>
           | None \<Rightarrow>
               (case useFactory p of
                  Some f \<Rightarrow> Inr \<lparr>fn = Fn f, useNew = False, deps = ds, value = EMPTY\<rparr>
                | None \<Rightarrow>
                    if (case useExisting p of Some t \<Rightarrow> truthy t | None \<Rightarrow> False)
                    then Inr \<lparr>fn = IDENT, useNew = False, deps = ds, value = EMPTY\<rparr>
                    else
                      (case useClass p of
                         Some c \<Rightarrow> Inr \<lparr>fn = Fn c, useNew = True, deps = ds, value = EMPTY\<rparr>
                       | None \<Rightarrow>
                           (case provide p of
                              Some (TFunction c) \<Rightarrow>
                                Inr \<lparr>fn = Fn c, useNew = True, deps = ds, value = EMPTY\<rparr>
                            | _ \<Rightarrow>
                                Inl (staticError
                                  ''StaticProvider does not have [useValue|useFactory|useExisting|useClass] or [provide] is not newable''
                                  (ErrProvider p)))))))"

definition multiProviderMixError :: "token \<Rightarrow> StaticError" where
  "multiProviderMixError tok =
     staticError ''Cannot mix multi providers and regular providers'' (ErrToken tok)"

text \<open>
  The branch of \<open>recursivelyProcessProviders\<close> for an object with a truthy \<open>provide\<close>.
  A multi provider is stored under itself as the token: the object \<open>TObject (oid p)\<close>.
\<close>

definition processProvider :: "records \<Rightarrow> provider \<Rightarrow> token \<Rightarrow> StaticError + records" where
  "processProvider records p tok0 =
     (case resolveProvider p of
        Inl e \<Rightarrow> Inl e
      | Inr resolvedProvider \<Rightarrow>
          (case (if multi p
                 then (case map_of records tok0 of
                         Some multiProvider \<Rightarrow>
                           if fn multiProvider \<noteq> MULTI_PROVIDER_FN
                           then Inl (multiProviderMixError tok0)
                           else Inr (TObject (oid p),
                                  AList.map_entry tok0
                                    (\<lambda>r. r\<lparr>deps := deps r @
                                       [\<lparr>token = TObject (oid p), options = OptionFlags_Default\<rparr>]\<rparr>)
                                    records)
                       | None \<Rightarrow>
                           Inr (TObject (oid p),
                             AList.update tok0
                               \<lparr>fn = MULTI_PROVIDER_FN, useNew = False,
                                deps = [\<lparr>token = TObject (oid p), options = OptionFlags_Default\<rparr>],
                                value = EMPTY\<rparr>
                               records))
                 else Inr (tok0, records)) of
             Inl e \<Rightarrow> Inl e
           | Inr (tok, records1) \<Rightarrow>
               (case map_of records1 tok of
                  Some record \<Rightarrow>
                    if fn record = MULTI_PROVIDER_FN then Inl (multiProviderMixError tok)
                    else Inr (AList.update tok resolvedProvider records1)
                | None \<Rightarrow> Inr (AList.update tok resolvedProvider records1))))"

fun recursivelyProcessProviders :: "records \<Rightarrow> StaticProvider \<Rightarrow> StaticError + records"
  and processArray :: "records \<Rightarrow> StaticProvider list \<Rightarrow> StaticError + records"
where
  "recursivelyProcessProviders records PFalsy = Inr records"
| "recursivelyProcessProviders records (PArray ps) = processArray records ps"
| "recursivelyProcessProviders records (PFunction f) =
     Inl (staticError ''Function/Class not supported'' (ErrFunction f))"
| "recursivelyProcessProviders records (PObject p) =
     (case provide p of
        Some tok \<Rightarrow>
          if truthy tok then processProvider records p tok
          else Inl (staticError ''Unexpected provider'' (ErrProvider p))
      | None \<Rightarrow> Inl (staticError ''Unexpected provider'' (ErrProvider p)))"
| "recursivelyProcessProviders records POther =
     Inl (staticError ''Unexpected provider'' ErrOther)"
| "processArray records [] = Inr records"
| "processArray records (p # ps) =
     (case recursivelyProcessProviders records p of
        Inl e \<Rightarrow> Inl e
      | Inr records1 \<Rightarrow> processArray records1 ps)"

text \<open>
  The constructor of \<open>StaticInjector\<close>; \<open>this\<close> is the address of the new object, and a
  parent left out is \<open>NULL_INJECTOR\<close>.
\<close>

definition StaticInjector_new ::
  "nat \<Rightarrow> StaticProvider list \<Rightarrow> injector option \<Rightarrow> StaticError + injector" where
  "StaticInjector_new this providers parent =
     (let records = AList.update Injector
                      \<lparr>fn = IDENT, useNew = False, deps = [], value = Val (VInjector this)\<rparr> []
      in case recursivelyProcessProviders records (PArray providers) of
           Inl e \<Rightarrow> Inl e
         | Inr records1 \<Rightarrow>
             Inr (StaticInjector this records1
                    (case parent of None \<Rightarrow> NullInjector | Some p \<Rightarrow> p)))"
section \<open>Notions used to state the properties\<close>

text \<open>
  The chain with every slot emptied: what no call changes. Calls write slots only; the
  injectors, the keys of their maps and the functions and entries of their records stay.
\<close>

fun shape :: "injector \<Rightarrow> injector" where
  "shape NullInjector = NullInjector"
| "shape (StaticInjector a R p) =
     StaticInjector a (map (\<lambda>(t, r). (t, r\<lparr>value := EMPTY\<rparr>)) R) (shape p)"

text \<open>
  An error on which the \<open>catch\<close> block of \<open>tryResolveToken\<close> runs to its end, and a
  thrown value on which it does.
\<close>

definition clean :: "Error \<Rightarrow> bool" where
  "clean e \<longleftrightarrow> \<not> frozen e \<and> (case ngTempTokenPath e of BadPath s \<Rightarrow> False | _ \<Rightarrow> True)"

definition benign :: "thrown \<Rightarrow> bool" where
  "benign x = (case x of ThrowError e \<Rightarrow> clean e | ThrowOther s \<Rightarrow> True | ThrowSymbol \<Rightarrow> False)"

text \<open>
  The two halves of what the \<open>catch\<close> block of \<open>tryResolveToken\<close> does when it runs to
  its end: the error with the token put in front of its path, and the chain with the slot
  under the token reset when the test \<open>record.value == CIRCULAR\<close> holds.
\<close>

definition as_Error :: "thrown \<Rightarrow> Error" where
  "as_Error x = (case x of ThrowError err \<Rightarrow> err | ThrowOther s \<Rightarrow> new_Error s
                 | ThrowSymbol \<Rightarrow> TypeError_symbol)"

definition path_of :: "Error \<Rightarrow> token list" where
  "path_of e = (case ngTempTokenPath e of Path p \<Rightarrow> p | _ \<Rightarrow> [])"

definition add_path :: "token \<Rightarrow> Error \<Rightarrow> Error" where
  "add_path tok e = e\<lparr>ngTempTokenPath := Path (tok # path_of e)\<rparr>"

definition reset :: "nat \<Rightarrow> token \<Rightarrow> injector \<Rightarrow> injector" where
  "reset k tok self =
     (if (case lookup self k tok of Some r \<Rightarrow> eq_CIRCULAR (value r) | None \<Rightarrow> False)
      then setValue k tok EMPTY self else self)"

text \<open>The error that \<open>resolveToken\<close> throws for a record in progress.\<close>

definition Circular_dependency :: Error where
  "Circular_dependency = new_Error (NO_NEW_LINE @ ''Circular dependency'')"

text \<open>
  The call \<open>useNew ? new fn(...deps) : fn.apply(obj, deps)\<close> of \<open>resolveToken\<close>, as it stands
  inside that function.
\<close>

definition invoke ::
  "(token \<Rightarrow> string) \<Rightarrow> userfn \<Rightarrow> nat \<Rightarrow> injector \<Rightarrow> invocation list \<Rightarrow> fnref \<Rightarrow> bool \<Rightarrow> jsval list \<Rightarrow>
   ((thrown + jsval) \<times> injector \<times> invocation list) option" where
  "invoke stringify call m self log f new args =
     (case f of
        IDENT \<Rightarrow> Some (Inr (case args of [] \<Rightarrow> VUndefined | v # _ \<Rightarrow> v), self, log)
      | MULTI_PROVIDER_FN \<Rightarrow> Some (Inr (VArr args), self, log)
      | Fn f \<Rightarrow> run stringify call m (call log f new args) self log)"

text \<open>The \<open>notFoundValue\<close> that a dependency entry with the given options is resolved with.\<close>

definition notFoundValue_of :: "int \<Rightarrow> jsval" where
  "notFoundValue_of opts =
     (if opts AND OptionFlags_Optional \<noteq> 0 then VNull else THROW_IF_NOT_FOUND)"

text \<open>One pass of the loop over \<open>depRecords\<close>: the entry is resolved by \<open>tryResolveToken\<close>.\<close>

definition resolveDep ::
    "(token \<Rightarrow> string) \<Rightarrow> userfn \<Rightarrow> nat \<Rightarrow> DependencyRecord \<Rightarrow> injector \<Rightarrow> nat \<Rightarrow> injref \<Rightarrow>
     invocation list \<Rightarrow> ((Error + jsval) \<times> injector \<times> invocation list) option"
where
  "resolveDep stringify call n d self k par log =
     (let childRecord = (if options d AND OptionFlags_CheckSelf \<noteq> 0
                         then lookup self k (token d) else None);
          useNull = (childRecord = None \<and> options d AND OptionFlags_CheckParent = 0)
      in tryResolveToken stringify call n (token d) childRecord self k
           (if useNull then NULL_INJECTOR else par) (notFoundValue_of (options d)) log)"


text \<open>The chain that starts at injector number \<open>k\<close>: the \<open>k\<close>-th parent.\<close>

fun ancestor :: "injector \<Rightarrow> nat \<Rightarrow> injector" where
  "ancestor self 0 = self"
| "ancestor NullInjector (Suc k) = NullInjector"
| "ancestor (StaticInjector a R p) (Suc k) = ancestor p k"

text \<open>
  The token has no record in the injector nor in any of its ancestors; and the error
  that a \<open>get\<close> for such a token ends with: the error of the null injector, to which
  every \<open>StaticInjector\<close> on the way back adds the token as path and its own wrapper.
\<close>

fun absent :: "token \<Rightarrow> injector \<Rightarrow> bool" where
  "absent tok NullInjector = True"
| "absent tok (StaticInjector this R parent) = (map_of R tok = None \<and> absent tok parent)"

fun not_found_error :: "(token \<Rightarrow> string) \<Rightarrow> token \<Rightarrow> injector \<Rightarrow> Error" where
  "not_found_error stringify tok NullInjector =
     new_Error (''NullInjectorError: No provider for '' @ stringify tok @ ''!'')"
| "not_found_error stringify tok (StaticInjector this R parent) =
     StaticInjector_get_catch stringify (add_path tok (not_found_error stringify tok parent))"

text \<open>
  The provider objects of a nested list of providers, in the order in which
  \<open>recursivelyProcessProviders\<close> meets them.
\<close>

fun flatten :: "StaticProvider \<Rightarrow> provider list" where
  "flatten PFalsy = []"
| "flatten (PArray ps) = concat (map flatten ps)"
| "flatten (PFunction f) = []"
| "flatten (PObject p) = [p]"
| "flatten POther = []"

text \<open>Nothing in the nested list is a bare function or a value that is not a provider.\<close>

fun plain :: "StaticProvider \<Rightarrow> bool" where
  "plain PFalsy = True"
| "plain (PArray ps) = list_all plain ps"
| "plain (PFunction f) = False"
| "plain (PObject p) = True"
| "plain POther = False"

text \<open>
  A provider object that \<open>recursivelyProcessProviders\<close> accepts on its own: it has a
  truthy \<open>provide\<close>, and \<open>resolveProvider\<close> makes a record of it.
\<close>

definition registrable :: "provider \<Rightarrow> bool" where
  "registrable p \<longleftrightarrow>
     (case provide p of Some tok \<Rightarrow> truthy tok | None \<Rightarrow> False) \<and>
     (case resolveProvider p of Inr r \<Rightarrow> True | Inl e \<Rightarrow> False)"

text \<open>
  The dependency entry that the placeholder of a multi provider gets for the provider
  object \<open>p\<close>, and the multi providers of a list that are given for the token \<open>M\<close>.
\<close>

definition constituent :: "provider \<Rightarrow> DependencyRecord" where
  "constituent p = \<lparr>token = TObject (oid p), options = OptionFlags_Default\<rparr>"

definition multi_for :: "token \<Rightarrow> provider list \<Rightarrow> provider list" where
  "multi_for M ps = filter (\<lambda>p. multi p \<and> provide p = Some M) ps"

text \<open>
  Whether the record that the map holds under the token of the provider is the
  placeholder of a multi provider exactly when the provider is a multi provider.
\<close>

definition multi_status :: "records \<Rightarrow> provider \<Rightarrow> bool" where
  "multi_status R p \<longleftrightarrow>
     (case provide p of
        Some t \<Rightarrow> (case map_of R t of
                     Some r \<Rightarrow> (fn r = MULTI_PROVIDER_FN) = multi p
                   | None \<Rightarrow> False)
      | None \<Rightarrow> False)"

text \<open>
  Provider objects for examples: \<open>{provide: tok, useValue: v, multi: m}\<close> and
  \<open>{provide: tok, useFactory: f, deps: ds}\<close>.
\<close>

definition value_provider :: "nat \<Rightarrow> token \<Rightarrow> jsval \<Rightarrow> bool \<Rightarrow> provider" where
  "value_provider i tok v m =
     \<lparr>oid = i, provide = Some tok, useValue = Some v, useFactory = None, useExisting = None,
      useClass = None, providerDeps = None, multi = m\<rparr>"

definition factory_provider :: "nat \<Rightarrow> token \<Rightarrow> nat \<Rightarrow> dep list \<Rightarrow> provider" where
  "factory_provider i tok f ds =
     \<lparr>oid = i, provide = Some tok, useValue = None, useFactory = Some f, useExisting = None,
      useClass = None, providerDeps = Some ds, multi = False\<rparr>"


text \<open>
  No record of the map, or of the injector and its ancestors, is in progress: none passes
  the test \<open>value == CIRCULAR\<close>.
\<close>

definition settled :: "records \<Rightarrow> bool" where
  "settled R \<longleftrightarrow>
     (\<forall>t \<in> set (map fst R). case map_of R t of Some r \<Rightarrow> \<not> eq_CIRCULAR (value r) | None \<Rightarrow> True)"

fun settled_inj :: "injector \<Rightarrow> bool" where
  "settled_inj NullInjector = True"
| "settled_inj (StaticInjector this R parent) = (settled R \<and> settled_inj parent)"

text \<open>
  A slot that holds a resolved value: a value for which the test \<open>value == CIRCULAR\<close>
  fails.
\<close>

definition is_resolved :: "slot \<Rightarrow> bool" where
  "is_resolved s = (case s of Val v \<Rightarrow> \<not> eq_CIRCULAR s | _ \<Rightarrow> False)"

text \<open>
  What a call keeps: the shape of the chain; the log, to which it only adds; and every
  record that was resolved before it, which is the same after it and for which the call
  has added no entry to the log, that is, whose function it has not called.
\<close>

definition keeps :: "injector \<Rightarrow> invocation list \<Rightarrow> injector \<Rightarrow> invocation list \<Rightarrow> bool" where
  "keeps s l s' l' \<longleftrightarrow>
     shape s' = shape s \<and>
     (\<exists>new. l' = l @ new \<and>
        (\<forall>k t r. lookup s k t = Some r \<longrightarrow> is_resolved (value r) \<longrightarrow>
           lookup s' k t = Some r \<and> (\<forall>e\<in>set new. \<not> (fst e = k \<and> fst (snd e) = t))))"

text \<open>
  A run of \<open>get\<close> calls on injectors of the chain, each with its bound on the depth of
  nested calls and each on the state the one before left.
\<close>

fun gets ::
  "(token \<Rightarrow> string) \<Rightarrow> userfn \<Rightarrow> injector \<times> invocation list \<Rightarrow>
   (nat \<times> injref \<times> token \<times> jsval option) list \<Rightarrow> (injector \<times> invocation list) option" where
  "gets stringify call s [] = Some s"
| "gets stringify call s ((n, ref, tok, arg) # rest) =
     (case get_within stringify call n (fst s) ref tok arg (snd s) of
        None \<Rightarrow> None
      | Some (res, self1, log1) \<Rightarrow> gets stringify call (self1, log1) rest)"

section \<open>The chain and its slots\<close>

lemma records_at_update_at:
  "records_at (update_at k f self) j =
     (if j = k then map_option f (records_at self k) else records_at self j)"
proof (induction self arbitrary: k j)
  case NullInjector
  then show ?case by simp
next
  case (StaticInjector a R p)
  then show ?case by (cases k; cases j) simp_all
qed

lemma lookup_setValue:
  "lookup (setValue k t x self) j u =
     (if j = k \<and> u = t then map_option (\<lambda>r. r\<lparr>value := x\<rparr>) (lookup self k t)
      else lookup self j u)"
  by (auto simp: lookup_def setValue_def records_at_update_at map_of_map_entry
      split: option.splits)

lemma records_at_setValue_None [simp]:
  "records_at (setValue k t x self) j = None \<longleftrightarrow> records_at self j = None"
  by (simp add: setValue_def records_at_update_at)

lemma shape_update_at:
  assumes "\<And>R. map (\<lambda>(t, r). (t, r\<lparr>value := EMPTY\<rparr>)) (f R) = map (\<lambda>(t, r). (t, r\<lparr>value := EMPTY\<rparr>)) R"
  shows "shape (update_at k f self) = shape self"
proof (induction self arbitrary: k)
  case NullInjector
  then show ?case by simp
next
  case (StaticInjector a R p)
  then show ?case using assms by (cases k) simp_all
qed

lemma erase_map_entry:
  "map (\<lambda>(t, r). (t, r\<lparr>value := EMPTY\<rparr>)) (AList.map_entry tok (\<lambda>r. r\<lparr>value := x\<rparr>) R) =
   map (\<lambda>(t, r). (t, r\<lparr>value := EMPTY\<rparr>)) R"
  by (induction R) auto

lemma shape_setValue [simp]: "shape (setValue k t x self) = shape self"
  unfolding setValue_def by (rule shape_update_at) (rule erase_map_entry)

lemma shape_reset [simp]: "shape (reset k t self) = shape self"
  by (simp add: reset_def)

lemma shape_records_at:
  "records_at (shape self) k = map_option (map (\<lambda>(t, r). (t, r\<lparr>value := EMPTY\<rparr>))) (records_at self k)"
proof (induction self arbitrary: k)
  case NullInjector
  then show ?case by simp
next
  case (StaticInjector a R p)
  then show ?case by (cases k) simp_all
qed

lemma map_of_erase:
  "map_of (map (\<lambda>(t, r). (t, r\<lparr>value := EMPTY\<rparr>)) R) t = map_option (\<lambda>r. r\<lparr>value := EMPTY\<rparr>) (map_of R t)"
  by (induction R) auto

lemma shape_lookup:
  "lookup (shape self) k t = map_option (\<lambda>r. r\<lparr>value := EMPTY\<rparr>) (lookup self k t)"
  by (simp add: lookup_def shape_records_at map_of_erase split: option.splits)

lemma same_shape_records_at:
  assumes "shape s' = shape s"
  shows "records_at s' k = None \<longleftrightarrow> records_at s k = None"
  using arg_cong[OF assms, where f="\<lambda>x. records_at x k"]
  by (cases "records_at s' k"; cases "records_at s k") (simp_all add: shape_records_at)

lemma same_shape_lookup:
  assumes "shape s' = shape s" "lookup s k t = Some r"
  shows "\<exists>x. lookup s' k t = Some (r\<lparr>value := x\<rparr>)"
proof -
  from arg_cong[OF assms(1), where f="\<lambda>x. lookup x k t"] assms(2)
  obtain r' where r': "lookup s' k t = Some r'" "r'\<lparr>value := EMPTY\<rparr> = r\<lparr>value := EMPTY\<rparr>"
    by (auto simp: shape_lookup)
  from r'(2) have "r' = r\<lparr>value := value r'\<rparr>"
    by (cases r; cases r') simp
  with r'(1) show ?thesis by metis
qed

lemma same_shape_lookup_None:
  assumes "shape s' = shape s"
  shows "lookup s' k t = None \<longleftrightarrow> lookup s k t = None"
  using arg_cong[OF assms, where f="\<lambda>x. lookup x k t"]
  by (cases "lookup s' k t"; cases "lookup s k t") (simp_all add: shape_lookup)

lemma shape_depth: "depth (shape self) = depth self"
  by (induction self) simp_all

lemma same_shape_depth: "shape s' = shape s \<Longrightarrow> depth s' = depth s"
  by (metis shape_depth)

section \<open>The \<open>catch\<close> block\<close>

lemma clean_new_Error [simp]: "clean (new_Error m)"
  by (simp add: clean_def new_Error_def)

lemma clean_TypeError [simp]:
  "clean TypeError_symbol" "clean TypeError_frozen" "clean TypeError_unshift"
  by (simp_all add: TypeError_symbol_def TypeError_frozen_def TypeError_unshift_def)

lemma clean_add_path [simp]: "clean e \<Longrightarrow> clean (add_path t e)"
  by (simp add: clean_def add_path_def)

lemma clean_Circular [simp]: "clean Circular_dependency"
  by (simp add: Circular_dependency_def)

lemma catch_benign:
  assumes "benign x"
  shows "tryResolveToken_catch tok rec x s k =
           (add_path tok (as_Error x), if rec \<noteq> None then reset k tok s else s)"
proof (cases x)
  case (ThrowError e)
  with assms have "clean e" by (simp add: benign_def)
  with ThrowError show ?thesis
    by (cases "ngTempTokenPath e")
       (auto simp: tryResolveToken_catch_def clean_def add_path_def path_of_def as_Error_def
          reset_def Let_def)
next
  case (ThrowOther m)
  then show ?thesis
    by (auto simp: tryResolveToken_catch_def add_path_def path_of_def as_Error_def
          reset_def Let_def new_Error_def)
next
  case ThrowSymbol
  with assms show ?thesis by (simp add: benign_def)
qed

lemma catch_clean:
  "clean e \<Longrightarrow> tryResolveToken_catch tok rec (ThrowError e) s k =
     (add_path tok e, if rec \<noteq> None then reset k tok s else s)"
  using catch_benign[of "ThrowError e" tok rec s k] by (simp add: benign_def as_Error_def)

lemma catch_not_benign:
  assumes "\<not> benign x"
  shows "\<exists>e. tryResolveToken_catch tok rec x s k = (e, s) \<and>
             e \<in> {TypeError_symbol, TypeError_frozen, TypeError_unshift}"
proof (cases x)
  case (ThrowError e)
  with assms have "\<not> clean e" by (simp add: benign_def)
  with ThrowError show ?thesis
    by (cases "ngTempTokenPath e") (auto simp: tryResolveToken_catch_def clean_def)
next
  case (ThrowOther m)
  with assms show ?thesis by (simp add: benign_def)
next
  case ThrowSymbol
  then show ?thesis by (simp add: tryResolveToken_catch_def)
qed

lemma catch_result:
  assumes "tryResolveToken_catch tok rec x s k = (e, s')"
  shows "clean e" and "s' = s \<or> s' = reset k tok s" and "shape s' = shape s"
proof -
  show "clean e"
  proof (cases "benign x")
    case True
    with assms catch_benign[OF True, of tok rec s k] have "e = add_path tok (as_Error x)" by simp
    moreover from True have "clean (as_Error x)"
      by (cases x) (simp_all add: benign_def as_Error_def)
    ultimately show ?thesis by simp
  next
    case False
    from catch_not_benign[OF False, of tok rec s k] assms show ?thesis by auto
  qed
  show "s' = s \<or> s' = reset k tok s"
    using assms catch_benign[of x tok rec s k] catch_not_benign[of x tok rec s k]
    by (cases "benign x") (auto split: if_splits)
  then show "shape s' = shape s" by auto
qed

section \<open>Unfolding the functions\<close>

lemma resolveToken_in_progress:
  "eq_CIRCULAR (value r) \<Longrightarrow>
   resolveToken sf call n tok (Some r) self k par nf log =
     Some (Inl (ThrowError Circular_dependency), self, log)"
  by (simp add: resolveToken.simps Circular_dependency_def)

lemma resolveToken_Val:
  "value r = Val v \<Longrightarrow> \<not> eq_CIRCULAR (Val v) \<Longrightarrow>
   resolveToken sf call n tok (Some r) self k par nf log = Some (Inr v, self, log)"
  by (simp add: resolveToken.simps)

lemma eq_CIRCULAR_simps [simp]: "eq_CIRCULAR CIRCULAR" "\<not> eq_CIRCULAR EMPTY"
  by (simp_all add: eq_CIRCULAR_def)

lemma resolveToken_EMPTY:
  "value r = EMPTY \<Longrightarrow>
   resolveToken sf call (Suc m) tok (Some r) self k par nf log =
     (case resolveDeps sf call m (deps r) [] (setValue k tok CIRCULAR self) k par log of
        None \<Rightarrow> None
      | Some (Inl e, self1, log1) \<Rightarrow> Some (Inl (ThrowError e), self1, log1)
      | Some (Inr args, self1, log1) \<Rightarrow>
          (case invoke sf call m self1 log1 (fn r) (useNew r) args of
             None \<Rightarrow> None
           | Some (Inl e, self2, log2) \<Rightarrow>
               Some (Inl e, self2, log2 @ [(k, tok, fn r, useNew r, args)])
           | Some (Inr v, self2, log2) \<Rightarrow>
               Some (Inr v, setValue k tok (Val v) self2,
                     log2 @ [(k, tok, fn r, useNew r, args)])))"
  by (simp add: resolveToken.simps invoke_def split: option.splits sum.splits prod.splits fnref.splits)

lemma resolveToken_EMPTY_0:
  "value r = EMPTY \<Longrightarrow> resolveToken sf call 0 tok (Some r) self k par nf log = None"
  by (simp add: resolveToken.simps)

lemma resolveToken_None:
  "resolveToken sf call (Suc m) tok None self k par nf log =
     (case get_within sf call m self par tok (Some nf) log of
        None \<Rightarrow> None
      | Some (Inl e, self1, log1) \<Rightarrow> Some (Inl (ThrowError e), self1, log1)
      | Some (Inr v, self1, log1) \<Rightarrow> Some (Inr v, self1, log1))"
  by (simp add: resolveToken.simps)

lemma resolveToken_None_0: "resolveToken sf call 0 tok None self k par nf log = None"
  by (simp add: resolveToken.simps)

lemma get_within_NULL:
  "get_within sf call n self NULL_INJECTOR tok arg log = Some (NullInjector_get sf tok arg, self, log)"
  by (simp add: get_within.simps)

lemma get_within_beyond:
  "records_at self k = None \<Longrightarrow>
   get_within sf call n self (Nth k) tok arg log = Some (NullInjector_get sf tok arg, self, log)"
  by (simp add: get_within.simps)

lemma get_within_Nth:
  "records_at self k = Some R \<Longrightarrow>
   get_within sf call n self (Nth k) tok arg log =
     decorating sf (tryResolveToken sf call n tok (map_of R tok) self k (Nth (Suc k))
                      (case arg of None \<Rightarrow> VUndefined | Some v \<Rightarrow> v) log)"
  by (simp add: get_within.simps tryResolveToken_def Let_def)

lemma get_within_Static:
  "get_within sf call n (StaticInjector this R par) (Nth 0) tok arg log =
     decorating sf (tryResolveToken sf call n tok (map_of R tok) (StaticInjector this R par) 0
                      (Nth (Suc 0)) (case arg of None \<Rightarrow> VUndefined | Some v \<Rightarrow> v) log)"
  by (simp add: get_within_Nth)

lemma resolveDeps_Nil [simp]:
  "resolveDeps sf call n [] acc self k par log = Some (Inr acc, self, log)"
  by (simp add: resolveDeps.simps)

lemma resolveDeps_step:
  "resolveDeps sf call n (d # rest) acc self k par log =
     (case resolveDep sf call n d self k par log of
        None \<Rightarrow> None
      | Some (Inl e, self1, log1) \<Rightarrow> Some (Inl e, self1, log1)
      | Some (Inr v, self1, log1) \<Rightarrow> resolveDeps sf call n rest (acc @ [v]) self1 k par log1)"
  by (simp only: resolveDeps.simps resolveDep_def tryResolveToken_def notFoundValue_of_def Let_def)

lemma run_Get:
  "run sf call (Suc m) (Get ref tok arg cont) self log =
     (case get_within sf call m self ref tok arg log of
        None \<Rightarrow> None
      | Some (res, self1, log1) \<Rightarrow> run sf call m (cont res) self1 log1)"
  by (simp add: run.simps)

lemma run_simps [simp]:
  "run sf call n (Return v) self log = Some (Inr v, self, log)"
  "run sf call n (Throw x) self log = Some (Inl x, self, log)"
  "run sf call 0 (Get ref tok arg cont) self log = None"
  by (simp_all add: run.simps)

lemma decorating_Some:
  "decorating sf res = Some (x, s, l) \<longleftrightarrow>
     (\<exists>v. res = Some (Inr v, s, l) \<and> x = Inr v) \<or>
     (\<exists>e. res = Some (Inl e, s, l) \<and> x = Inl (StaticInjector_get_catch sf e))"
  by (auto simp: decorating_def split: option.splits sum.splits)

lemma decorating_None [simp]: "decorating sf res = None \<longleftrightarrow> res = None"
  by (auto simp: decorating_def split: option.splits sum.splits)

lemma catching_None [simp]: "catching tok rec k res = None \<longleftrightarrow> res = None"
  by (auto simp: catching_def split: option.splits sum.splits prod.splits)

lemma tryResolveToken_None [simp]:
  "tryResolveToken sf call n tok rec self k par nf log = None \<longleftrightarrow>
   resolveToken sf call n tok rec self k par nf log = None"
  by (simp add: tryResolveToken_def)

text \<open>The ways in which \<open>tryResolveToken\<close> comes to an end.\<close>

lemma tryResolveToken_cases_raw [consumes 1, case_names Cached Circular DepsFail FnThrow FnOk
    ParentFail ParentOk]:
  assumes "tryResolveToken sf call n tok rec self k par nf log = Some (res, self', log')"
  obtains
    (Cached) r v where "rec = Some r" "value r = Val v" "\<not> eq_CIRCULAR (Val v)"
      "res = Inr v" "self' = self" "log' = log"
  | (Circular) r where "rec = Some r" "eq_CIRCULAR (value r)"
      "res = Inl (add_path tok Circular_dependency)" "self' = reset k tok self" "log' = log"
  | (DepsFail) r m e self1 where "rec = Some r" "value r = EMPTY" "n = Suc m"
      "resolveDeps sf call m (deps r) [] (setValue k tok CIRCULAR self) k par log =
         Some (Inl e, self1, log')"
      "tryResolveToken_catch tok rec (ThrowError e) self1 k = (case res of Inl e1 \<Rightarrow> e1, self')"
      "\<exists>e1. res = Inl e1"
  | (FnThrow) r m args self1 log1 x self2 log2 where "rec = Some r" "value r = EMPTY" "n = Suc m"
      "resolveDeps sf call m (deps r) [] (setValue k tok CIRCULAR self) k par log =
         Some (Inr args, self1, log1)"
      "invoke sf call m self1 log1 (fn r) (useNew r) args = Some (Inl x, self2, log2)"
      "tryResolveToken_catch tok rec x self2 k = (case res of Inl e1 \<Rightarrow> e1, self')"
      "\<exists>e1. res = Inl e1"
      "log' = log2 @ [(k, tok, fn r, useNew r, args)]"
  | (FnOk) r m args self1 log1 v self2 log2 where "rec = Some r" "value r = EMPTY" "n = Suc m"
      "resolveDeps sf call m (deps r) [] (setValue k tok CIRCULAR self) k par log =
         Some (Inr args, self1, log1)"
      "invoke sf call m self1 log1 (fn r) (useNew r) args = Some (Inr v, self2, log2)"
      "res = Inr v" "self' = setValue k tok (Val v) self2"
      "log' = log2 @ [(k, tok, fn r, useNew r, args)]"
  | (ParentFail) m e where "rec = None" "n = Suc m"
      "get_within sf call m self par tok (Some nf) log = Some (Inl e, self', log')"
      "tryResolveToken_catch tok rec (ThrowError e) self' k = (case res of Inl e1 \<Rightarrow> e1, self')"
      "\<exists>e1. res = Inl e1"
  | (ParentOk) m v where "rec = None" "n = Suc m"
      "get_within sf call m self par tok (Some nf) log = Some (Inr v, self', log')"
      "res = Inr v"
proof (cases rec)
  case None
  show ?thesis
  proof (cases n)
    case 0
    with None assms show ?thesis by (simp add: tryResolveToken_def resolveToken_None_0 catching_def)
  next
    case (Suc m)
    with None assms show ?thesis
      by (auto simp: tryResolveToken_def resolveToken_None catching_def tryResolveToken_catch_def
          split: option.splits sum.splits prod.splits if_splits thrown.splits pathprop.splits
          intro: ParentFail ParentOk)
  qed
next
  case (Some r)
  show ?thesis
  proof (cases "eq_CIRCULAR (value r)")
    case True
    with Some assms show ?thesis
      by (intro Circular[of r])
         (auto simp: tryResolveToken_def resolveToken_in_progress catching_def catch_clean)
  next
    case False
    show ?thesis
    proof (cases "value r")
      case CIRCULAR
      with False show ?thesis by simp
    next
      case (Val v)
      with Some False assms show ?thesis
        by (intro Cached[of r v]) (auto simp: tryResolveToken_def resolveToken_Val catching_def)
    next
      case EMPTY
      show ?thesis
      proof (cases n)
        case 0
        with Some EMPTY assms show ?thesis
          by (simp add: tryResolveToken_def resolveToken_EMPTY_0 catching_def)
      next
        case (Suc m)
        from assms Some EMPTY Suc show ?thesis
          unfolding tryResolveToken_def catching_def
          by (auto simp: resolveToken_EMPTY
              split: option.splits sum.splits prod.splits
              intro: DepsFail[of r m] FnThrow[of r m] FnOk[of r m])
      qed
    qed
  qed
qed

section \<open>Errors inside the engine are clean\<close>

lemma tryResolveToken_clean:
  assumes "tryResolveToken sf call n tok rec self k par nf log = Some (Inl e, self', log')"
  shows "clean e"
  using assms unfolding tryResolveToken_def catching_def
  by (auto split: option.splits sum.splits prod.splits dest: catch_result(1))

lemma resolveDep_clean:
  "resolveDep sf call n d self k par log = Some (Inl e, self', log') \<Longrightarrow> clean e"
  unfolding resolveDep_def Let_def by (rule tryResolveToken_clean)

lemma resolveDeps_clean:
  "resolveDeps sf call n ds acc self k par log = Some (Inl e, self', log') \<Longrightarrow> clean e"
proof (induction ds arbitrary: acc self log)
  case Nil
  then show ?case by simp
next
  case (Cons d ds)
  then show ?case
    by (auto simp: resolveDeps_step split: option.splits sum.splits dest: resolveDep_clean)
qed

lemma clean_get_catch [simp]: "clean e \<Longrightarrow> clean (StaticInjector_get_catch sf e)"
  by (simp add: StaticInjector_get_catch_def clean_def Let_def)

lemma NullInjector_get_clean: "NullInjector_get sf tok arg = Inl e \<Longrightarrow> clean e"
  by (auto simp: NullInjector_get_def Let_def split: if_splits)

lemma get_within_clean:
  assumes "get_within sf call n self ref tok arg log = Some (Inl e, self', log')"
  shows "clean e"
proof (cases ref)
  case NULL_INJECTOR
  with assms show ?thesis by (auto simp: get_within_NULL dest: NullInjector_get_clean)
next
  case (Nth k)
  show ?thesis
  proof (cases "records_at self k")
    case None
    with Nth assms show ?thesis by (auto simp: get_within_beyond dest: NullInjector_get_clean)
  next
    case (Some R)
    with Nth assms show ?thesis
      by (auto simp: get_within_Nth decorating_Some dest: tryResolveToken_clean)
  qed
qed

text \<open>The ways in which \<open>tryResolveToken\<close> comes to an end, with the errors of the engine
  passed through the \<open>catch\<close> block.\<close>

lemma tryResolveToken_cases [consumes 1, case_names Cached Circular DepsFail FnThrow FnOk
    ParentFail ParentOk]:
  assumes "tryResolveToken sf call n tok rec self k par nf log = Some (res, self', log')"
  obtains
    (Cached) r v where "rec = Some r" "value r = Val v" "\<not> eq_CIRCULAR (Val v)"
      "res = Inr v" "self' = self" "log' = log"
  | (Circular) r where "rec = Some r" "eq_CIRCULAR (value r)"
      "res = Inl (add_path tok Circular_dependency)" "self' = reset k tok self" "log' = log"
  | (DepsFail) r m e self1 where "rec = Some r" "value r = EMPTY" "n = Suc m"
      "resolveDeps sf call m (deps r) [] (setValue k tok CIRCULAR self) k par log =
         Some (Inl e, self1, log')"
      "res = Inl (add_path tok e)" "self' = reset k tok self1"
  | (FnThrow) r m args self1 log1 x self2 log2 e1 where "rec = Some r" "value r = EMPTY" "n = Suc m"
      "resolveDeps sf call m (deps r) [] (setValue k tok CIRCULAR self) k par log =
         Some (Inr args, self1, log1)"
      "invoke sf call m self1 log1 (fn r) (useNew r) args = Some (Inl x, self2, log2)"
      "tryResolveToken_catch tok rec x self2 k = (e1, self')"
      "res = Inl e1"
      "log' = log2 @ [(k, tok, fn r, useNew r, args)]"
  | (FnOk) r m args self1 log1 v self2 log2 where "rec = Some r" "value r = EMPTY" "n = Suc m"
      "resolveDeps sf call m (deps r) [] (setValue k tok CIRCULAR self) k par log =
         Some (Inr args, self1, log1)"
      "invoke sf call m self1 log1 (fn r) (useNew r) args = Some (Inr v, self2, log2)"
      "res = Inr v" "self' = setValue k tok (Val v) self2"
      "log' = log2 @ [(k, tok, fn r, useNew r, args)]"
  | (ParentFail) m e where "rec = None" "n = Suc m"
      "get_within sf call m self par tok (Some nf) log = Some (Inl e, self', log')"
      "res = Inl (add_path tok e)"
  | (ParentOk) m v where "rec = None" "n = Suc m"
      "get_within sf call m self par tok (Some nf) log = Some (Inr v, self', log')"
      "res = Inr v"
  using assms
proof (cases rule: tryResolveToken_cases_raw)
  case (DepsFail r m e self1)
  from resolveDeps_clean[OF DepsFail(4)] have "clean e" .
  with DepsFail(1,5,6) have "res = Inl (add_path tok e)" "self' = reset k tok self1"
    by (auto simp: catch_clean)
  with DepsFail(1-4) show ?thesis by (intro that(3)[of r m e self1])
next
  case (FnThrow r m args self1 log1 x self2 log2)
  then show ?thesis by (intro that(4)[of r m args self1 log1 x self2 log2]) auto
next
  case (ParentFail m e)
  from get_within_clean[OF ParentFail(3)] have "clean e" .
  with ParentFail(1,4,5) have "res = Inl (add_path tok e)" by (auto simp: catch_clean)
  with ParentFail(1-3) show ?thesis by (intro that(6)[of m e])
qed (auto intro: that)

section \<open>Tokens that nobody provides\<close>

lemma ancestor_0 [simp]: "ancestor self 0 = self"
  by (cases self) simp_all

lemma records_at_ancestor: "records_at (ancestor self k) j = records_at self (k + j)"
proof (induction self k rule: ancestor.induct)
  case (1 self)
  then show ?case by simp
next
  case (2 k)
  then show ?case by simp
next
  case (3 a R p k)
  then show ?case by simp
qed

lemma ancestor_None: "records_at self k = None \<Longrightarrow> ancestor self k = NullInjector"
proof (induction self k rule: ancestor.induct)
  case (1 self)
  then show ?case by (cases self) simp_all
next
  case (2 k)
  then show ?case by simp
next
  case (3 a R p k)
  then show ?case by simp
qed

lemma ancestor_Some:
  "records_at self k = Some R \<Longrightarrow> \<exists>a. ancestor self k = StaticInjector a R (ancestor self (Suc k))"
proof (induction self k rule: ancestor.induct)
  case (1 self)
  then show ?case by (cases self) simp_all
next
  case (2 k)
  then show ?case by simp
next
  case (3 a R p k)
  then show ?case by simp
qed

lemma absent_iff: "absent tok self \<longleftrightarrow> (\<forall>j. lookup self j tok = None)"
proof (induction self)
  case NullInjector
  then show ?case by (simp add: lookup_def)
next
  case (StaticInjector a R p)
  show ?case
  proof
    assume a: "absent tok (StaticInjector a R p)"
    show "\<forall>j. lookup (StaticInjector a R p) j tok = None"
    proof
      fix j
      from a StaticInjector show "lookup (StaticInjector a R p) j tok = None"
        by (cases j) (simp_all add: lookup_def)
    qed
  next
    assume a: "\<forall>j. lookup (StaticInjector a R p) j tok = None"
    then have "lookup (StaticInjector a R p) 0 tok = None" by blast
    moreover have "lookup p j tok = None" for j
      using a[rule_format, of "Suc j"] by (simp add: lookup_def)
    ultimately show "absent tok (StaticInjector a R p)"
      using StaticInjector by (simp add: lookup_def)
  qed
qed

lemma absent_ancestor: "absent tok self \<Longrightarrow> absent tok (ancestor self k)"
  by (simp add: absent_iff lookup_def records_at_ancestor)

lemma depth_ancestor_Suc:
  "records_at self k = Some R \<Longrightarrow> depth (ancestor self (Suc k)) < depth (ancestor self k)"
  by (drule ancestor_Some) auto

lemma NullInjector_get_undefined:
  "NullInjector_get sf tok (Some (case arg of None \<Rightarrow> VUndefined | Some v \<Rightarrow> v)) =
   NullInjector_get sf tok arg"
  by (cases arg) (simp_all add: NullInjector_get_def)

lemma NullInjector_get_Inl:
  "NullInjector_get sf tok arg = Inl e \<Longrightarrow> e = not_found_error sf tok NullInjector"
  by (auto simp: NullInjector_get_def Let_def split: if_splits)

text \<open>
  \<open>get\<close> on injector number \<open>k\<close> for a token that no injector from there on has a record
  for: the answer of the null injector, decorated once by every injector on the way
  back; nothing changes and no function of the caller runs.
\<close>

lemma get_within_absent:
  assumes "absent tok (ancestor self k)" "depth (ancestor self k) \<le> n"
  shows "get_within sf call n self (Nth k) tok arg log =
           Some (case NullInjector_get sf tok arg of
                   Inl e \<Rightarrow> Inl (not_found_error sf tok (ancestor self k))
                 | Inr v \<Rightarrow> Inr v, self, log)"
  using assms
proof (induction "depth (ancestor self k)" arbitrary: k n arg rule: less_induct)
  case less
  show ?case
  proof (cases "records_at self k")
    case None
    then show ?thesis
      by (auto simp: get_within_beyond ancestor_None split: sum.splits dest: NullInjector_get_Inl)
  next
    case (Some R)
    from ancestor_Some[OF Some] obtain a where
      a: "ancestor self k = StaticInjector a R (ancestor self (Suc k))" by blast
    with less.prems have none: "map_of R tok = None" and ab: "absent tok (ancestor self (Suc k))"
      by simp_all
    from a less.prems(2) obtain m where n: "n = Suc m" "depth (ancestor self (Suc k)) \<le> m"
      by (cases n) auto
    let ?nf = "case arg of None \<Rightarrow> VUndefined | Some v \<Rightarrow> v"
    from less.hyps[OF depth_ancestor_Suc[OF Some] ab n(2), of "Some ?nf"]
    have g: "get_within sf call m self (Nth (Suc k)) tok (Some ?nf) log =
       Some (case NullInjector_get sf tok arg of
               Inl e \<Rightarrow> Inl (not_found_error sf tok (ancestor self (Suc k)))
             | Inr v \<Rightarrow> Inr v, self, log)"
      by (simp add: NullInjector_get_undefined)
    show ?thesis
    proof (cases "NullInjector_get sf tok arg")
      case (Inl e)
      have "clean (not_found_error sf tok (ancestor self (Suc k)))"
        using get_within_clean[of sf call m self "Nth (Suc k)" tok "Some ?nf" log] g Inl by simp
      with g Inl Some none n(1) a show ?thesis
        by (simp add: get_within_Nth tryResolveToken_def resolveToken_None catching_def
            catch_clean decorating_def)
    next
      case (Inr v)
      with g Some none n(1) show ?thesis
        by (simp add: get_within_Nth tryResolveToken_def resolveToken_None catching_def
            decorating_def)
    qed
  qed
qed

lemma get_absent:
  assumes "absent tok self"
  shows "get sf call self tok arg log =
           Some (case NullInjector_get sf tok arg of
                   Inl e \<Rightarrow> Inl (not_found_error sf tok self) | Inr v \<Rightarrow> Inr v, self, log)"
  using get_within_absent[of tok self 0 "depth self" sf call arg log] assms
  by (auto simp: get_def split: sum.splits)

lemma get_undefined_eq_omitted:
  assumes "absent tok self"
  shows "get sf call self tok (Some VUndefined) log = get sf call self tok None log"
  using get_absent[OF assms, of sf call "Some VUndefined" log] get_absent[OF assms, of sf call None log]
  by (simp add: NullInjector_get_def)

lemma tryResolveToken_absent:
  assumes "absent tok (ancestor self j)" "depth (ancestor self j) < n"
    and "par = NULL_INJECTOR \<or> par = Nth j"
  shows "tryResolveToken sf call n tok None self k par nf log =
           Some (case NullInjector_get sf tok (Some nf) of
                   Inl e \<Rightarrow> Inl (add_path tok (case par of NULL_INJECTOR \<Rightarrow> e
                                | Nth i \<Rightarrow> not_found_error sf tok (ancestor self j)))
                 | Inr v \<Rightarrow> Inr v, self, log)"
proof -
  from assms(2) obtain m where n: "n = Suc m" "depth (ancestor self j) \<le> m" by (cases n) auto
  show ?thesis
  proof (cases par)
    case NULL_INJECTOR
    then show ?thesis using n(1)
      by (auto simp: tryResolveToken_def resolveToken_None get_within_NULL catching_def catch_clean
          split: sum.splits dest: NullInjector_get_clean)
  next
    case (Nth i)
    with assms(3) have i: "i = j" by simp
    note g = get_within_absent[OF assms(1) n(2), of sf call "Some nf" log]
    show ?thesis
    proof (cases "NullInjector_get sf tok (Some nf)")
      case (Inl e)
      have "clean (not_found_error sf tok (ancestor self j))"
        using get_within_clean[of sf call m self "Nth j" tok "Some nf" log] g Inl by simp
      with g Inl Nth i n(1) show ?thesis
        by (simp add: tryResolveToken_def resolveToken_None catching_def catch_clean)
    next
      case (Inr v)
      with g Nth i n(1) show ?thesis
        by (simp add: tryResolveToken_def resolveToken_None catching_def)
    qed
  qed
qed

lemma resolveDeps_Optional_absent:
  assumes "lookup self k (token d) = None" "absent (token d) (ancestor self (Suc k))"
    and "options d AND OptionFlags_Optional \<noteq> 0" "depth (ancestor self (Suc k)) < n"
  shows "resolveDeps sf call n (d # rest) acc self k (Nth (Suc k)) log =
           resolveDeps sf call n rest (acc @ [VNull]) self k (Nth (Suc k)) log"
proof -
  have "NullInjector_get sf (token d) (Some VNull) = Inr VNull"
    by (simp add: NullInjector_get_def)
  with tryResolveToken_absent[OF assms(2,4), of _ sf call k VNull log] assms(1,3)
  have "resolveDep sf call n d self k (Nth (Suc k)) log = Some (Inr VNull, self, log)"
    by (auto simp: resolveDep_def Let_def notFoundValue_of_def)
  then show ?thesis by (simp add: resolveDeps_step)
qed

section \<open>Building the map of records: what the loop does to the map\<close>

lemma CheckSelf_bit: "x AND OptionFlags_CheckSelf = 0 \<longleftrightarrow> \<not> bit x 1"
  unfolding OptionFlags_CheckSelf_def push_bit_of_1
  by (rule and_exp_eq_0_iff_not_bit)

lemma annotate_CheckSelf_cleared:
  "\<not> bit opts 1 \<Longrightarrow> \<not> bit (snd (annotate as (tok, opts))) 1"
proof (induction as arbitrary: tok opts)
  case Nil
  then show ?case by simp
next
  case (Cons a as)
  then show ?case
    by (cases a) (simp_all add: bit_and_iff bit_or_iff bit_not_iff
        OptionFlags_Optional_def OptionFlags_CheckSelf_def OptionFlags_CheckParent_def bit_push_bit_iff bit_1_iff)
qed

lemma annotate_SkipSelf:
  "SkipSelf \<in> set as \<Longrightarrow> \<not> bit (snd (annotate as (tok, opts))) 1"
proof (induction as arbitrary: tok opts)
  case Nil
  then show ?case by simp
next
  case (Cons a as)
  show ?case
  proof (cases "a = SkipSelf")
    case True
    have "\<not> bit (opts AND NOT OptionFlags_CheckSelf) 1"
      by (simp add: bit_and_iff bit_not_iff OptionFlags_CheckSelf_def bit_push_bit_iff bit_1_iff)
    from annotate_CheckSelf_cleared[OF this] True show ?thesis by simp
  next
    case False
    with Cons.prems have "SkipSelf \<in> set as" by simp
    from Cons.IH[OF this] show ?thesis by (cases a) simp_all
  qed
qed

lemma computeDep_SkipSelf:
  "SkipSelf \<in> set annotations \<Longrightarrow>
   options (computeDep (DepArray a annotations)) AND OptionFlags_CheckSelf = 0"
  using annotate_SkipSelf[of annotations "TObject a" OptionFlags_Default]
  by (auto simp: computeDep_def CheckSelf_bit split: prod.splits)

lemma map_of_update: "map_of (AList.update k v al) = (map_of al)(k \<mapsto> v)"
  by (rule update_conv')

lemma processProvider_other:
  assumes "processProvider R p tok0 = Inr R'" "t \<noteq> tok0" "t \<noteq> TObject (oid p)"
  shows "map_of R' t = map_of R t"
  using assms
  by (auto simp: processProvider_def map_of_update map_of_map_entry
      split: sum.splits if_splits option.splits prod.splits)

lemma processArray_append:
  "processArray R (xs @ ys) =
     (case processArray R xs of Inl e \<Rightarrow> Inl e | Inr R1 \<Rightarrow> processArray R1 ys)"
  by (induction xs arbitrary: R) (auto split: sum.splits)

lemma process_flatten:
  "plain sp \<Longrightarrow> recursivelyProcessProviders R sp = processArray R (map PObject (flatten sp))"
  "list_all plain sps \<Longrightarrow> processArray R sps = processArray R (map PObject (concat (map flatten sps)))"
proof (induction R sp and R sps rule: recursivelyProcessProviders_processArray.induct)
  case (4 records p)
  show ?case by (simp split: option.splits sum.splits)
next
  case (7 records p ps)
  then show ?case
    by (simp add: processArray_append split: sum.splits)
qed simp_all

lemma process_success_plain:
  "recursivelyProcessProviders R sp = Inr R' \<Longrightarrow> plain sp"
  "processArray R sps = Inr R' \<Longrightarrow> list_all plain sps"
proof (induction R sp and R sps arbitrary: R' and R' rule: recursivelyProcessProviders_processArray.induct)
  case (7 records p ps)
  then show ?case by (auto split: sum.splits)
qed simp_all

lemma processArray_other:
  assumes "processArray R (map PObject ps) = Inr R'"
    and "Some t \<notin> provide ` set ps" "\<And>k. t \<noteq> TObject k"
  shows "map_of R' t = map_of R t"
  using assms(1,2)
proof (induction ps arbitrary: R)
  case Nil
  then show ?case by simp
next
  case (Cons p ps)
  from Cons.prems obtain tok R1 where
    p: "provide p = Some tok" "processProvider R p tok = Inr R1"
    and rest: "processArray R1 (map PObject ps) = Inr R'"
    by (auto split: sum.splits option.splits if_splits)
  from Cons.prems(2) p(1) have "t \<noteq> tok" by force
  from processProvider_other[OF p(2) this assms(3)] Cons.IH[OF rest] Cons.prems(2)
  show ?case by simp
qed

lemma resolveProvider_fn: "resolveProvider p = Inr r \<Longrightarrow> fn r \<noteq> MULTI_PROVIDER_FN"
  by (auto simp: resolveProvider_def split: sum.splits option.splits if_splits token.splits)

lemma resolveProvider_useValue:
  "resolveProvider p = Inr r \<Longrightarrow> useValue p = Some v \<Longrightarrow> value r = Val v"
  by (auto simp: resolveProvider_def split: sum.splits option.splits if_splits token.splits)

lemma processProvider_error:
  assumes "resolveProvider p = Inr r" "processProvider R p tok = Inl e"
  shows "\<exists>t. e = multiProviderMixError t"
  using assms
  by (auto simp: processProvider_def split: sum.splits option.splits if_splits prod.splits)

lemma processArray_error:
  assumes "\<forall>p\<in>set ps. registrable p" "processArray R (map PObject ps) = Inl e"
  shows "\<exists>t. e = multiProviderMixError t"
  using assms
proof (induction ps arbitrary: R)
  case Nil
  then show ?case by simp
next
  case (Cons p ps)
  from Cons.prems(1) obtain tok r where
    p: "provide p = Some tok" "truthy tok" "resolveProvider p = Inr r"
    by (auto simp: registrable_def split: option.splits sum.splits)
  show ?case
  proof (cases "processProvider R p tok")
    case (Inl e')
    with Cons.prems(2) p have "e = e'" by simp
    with processProvider_error[OF p(3) Inl] show ?thesis by simp
  next
    case (Inr R1)
    with Cons.prems p have "processArray R1 (map PObject ps) = Inl e" by simp
    with Cons.IH Cons.prems(1) show ?thesis by simp
  qed
qed

lemma processProvider_status:
  assumes "processProvider R p tok = Inr R'" "provide p = Some tok"
  shows "multi_status R' p"
    and "\<And>t r. map_of R t = Some r \<Longrightarrow>
           \<exists>r'. map_of R' t = Some r' \<and> (fn r' = MULTI_PROVIDER_FN) = (fn r = MULTI_PROVIDER_FN)"
proof -
  from assms(1) obtain rp where rp: "resolveProvider p = Inr rp"
    by (auto simp: processProvider_def split: sum.splits)
  note f = resolveProvider_fn[OF rp]
  from assms rp f show "multi_status R' p"
    by (auto simp: processProvider_def multi_status_def map_of_update map_of_map_entry
        split: sum.splits option.splits if_splits prod.splits)
  fix t r assume "map_of R t = Some r"
  with assms rp f show "\<exists>r'. map_of R' t = Some r' \<and> (fn r' = MULTI_PROVIDER_FN) = (fn r = MULTI_PROVIDER_FN)"
    by (auto simp: processProvider_def map_of_update map_of_map_entry
        split: sum.splits option.splits if_splits prod.splits)
qed

lemma multi_status_kept:
  assumes "multi_status R p"
    and "\<And>t r. map_of R t = Some r \<Longrightarrow>
           \<exists>r'. map_of R' t = Some r' \<and> (fn r' = MULTI_PROVIDER_FN) = (fn r = MULTI_PROVIDER_FN)"
  shows "multi_status R' p"
  using assms(1) assms(2)[of "the (provide p)"]
  by (auto simp: multi_status_def split: option.splits)

lemma processArray_status:
  assumes "processArray R (map PObject ps) = Inr R'"
  shows "(\<forall>p\<in>set ps. multi_status R' p) \<and>
         (\<forall>t r. map_of R t = Some r \<longrightarrow>
            (\<exists>r'. map_of R' t = Some r' \<and> (fn r' = MULTI_PROVIDER_FN) = (fn r = MULTI_PROVIDER_FN)))"
  using assms
proof (induction ps arbitrary: R)
  case Nil
  then show ?case by simp
next
  case (Cons p ps)
  from Cons.prems obtain tok R1 where
    p: "provide p = Some tok" "processProvider R p tok = Inr R1"
    and rest: "processArray R1 (map PObject ps) = Inr R'"
    by (auto split: sum.splits option.splits if_splits)
  note s = processProvider_status[OF p(2,1)]
  from Cons.IH[OF rest] have
    ih1: "\<forall>p\<in>set ps. multi_status R' p"
    and ih2: "\<And>t r. map_of R1 t = Some r \<Longrightarrow>
      \<exists>r'. map_of R' t = Some r' \<and> (fn r' = MULTI_PROVIDER_FN) = (fn r = MULTI_PROVIDER_FN)"
    by blast+
  have "multi_status R' p" by (rule multi_status_kept[OF s(1) ih2])
  moreover have "\<exists>r'. map_of R' t = Some r' \<and> (fn r' = MULTI_PROVIDER_FN) = (fn r = MULTI_PROVIDER_FN)"
    if "map_of R t = Some r" for t r
  proof -
    from s(2)[OF that] obtain r1 where
      "map_of R1 t = Some r1" "(fn r1 = MULTI_PROVIDER_FN) = (fn r = MULTI_PROVIDER_FN)" by auto
    with ih2[of t r1] show ?thesis by auto
  qed
  ultimately show ?case using ih1 by auto
qed

lemma mixed_cannot_build:
  assumes "p \<in> set ps" "q \<in> set ps" "multi p" "\<not> multi q" "provide p = provide q"
  shows "processArray R (map PObject ps) \<noteq> Inr R'"
proof
  assume "processArray R (map PObject ps) = Inr R'"
  from processArray_status[OF this] assms(1,2) have "multi_status R' p" "multi_status R' q"
    by auto
  with assms(3,4,5) show False
    by (auto simp: multi_status_def split: option.splits)
qed

lemma multi_for_nonempty:
  "multi_for M ps \<noteq> [] \<longleftrightarrow> (\<exists>q\<in>set ps. multi q \<and> provide q = Some M)"
  unfolding multi_for_def filter_empty_conv by blast

lemma processProvider_placeholder_grows:
  assumes "processProvider R p tok = Inr R1" "provide p = Some tok"
    and "map_of R M = Some r" "fn r = MULTI_PROVIDER_FN"
    and "provide p \<noteq> Some (TObject (oid p))"
  shows "map_of R1 M =
     Some (if multi p \<and> tok = M then r\<lparr>deps := deps r @ [constituent p]\<rparr> else r)"
  using assms
  by (auto simp: processProvider_def map_of_update map_of_map_entry constituent_def
      split: sum.splits option.splits if_splits prod.splits)

lemma processArray_multi:
  assumes "processArray R (map PObject ps) = Inr R'"
    and "\<forall>p\<in>set ps. provide p \<noteq> Some (TObject (oid p))"
    and "map_of R M = Some r" "fn r = MULTI_PROVIDER_FN"
  shows "map_of R' M = Some (r\<lparr>deps := deps r @ map constituent (multi_for M ps)\<rparr>)"
  using assms
proof (induction ps arbitrary: R r)
  case Nil
  then show ?case by (simp add: multi_for_def)
next
  case (Cons p ps)
  from Cons.prems(1) obtain tok R1 where
    p: "provide p = Some tok" "processProvider R p tok = Inr R1"
    and rest: "processArray R1 (map PObject ps) = Inr R'"
    by (auto split: sum.splits option.splits if_splits)
  from Cons.prems(2) have self: "provide p \<noteq> Some (TObject (oid p))"
    and tl: "\<forall>p\<in>set ps. provide p \<noteq> Some (TObject (oid p))" by simp_all
  note g = processProvider_placeholder_grows[OF p(2,1) Cons.prems(3,4) self]
  show ?case
  proof (cases "multi p \<and> tok = M")
    case True
    with g have "map_of R1 M = Some (r\<lparr>deps := deps r @ [constituent p]\<rparr>)" by simp
    from Cons.IH[OF rest tl this] Cons.prems(4) True p(1) show ?thesis
      by (simp add: multi_for_def)
  next
    case False
    with g have "map_of R1 M = Some r" by simp
    from Cons.IH[OF rest tl this Cons.prems(4)] False p(1) show ?thesis
      by (auto simp: multi_for_def)
  qed
qed

lemma processProvider_placeholder_new:
  assumes "processProvider R p tok = Inr R1" "provide p = Some tok"
    and "map_of R M = None" "multi p" "tok = M"
    and "provide p \<noteq> Some (TObject (oid p))"
  shows "map_of R1 M = Some \<lparr>fn = MULTI_PROVIDER_FN, useNew = False, deps = [constituent p], value = EMPTY\<rparr>"
  using assms
  by (auto simp: processProvider_def map_of_update map_of_map_entry constituent_def
      split: sum.splits option.splits if_splits prod.splits)

lemma processProvider_untouched:
  assumes "processProvider R p tok = Inr R1" "provide p = Some tok"
    and "tok \<noteq> M" "TObject (oid p) \<noteq> M"
  shows "map_of R1 M = map_of R M"
  using processProvider_other[OF assms(1), of M] assms(3,4) by auto

lemma processArray_multi_new:
  assumes "processArray R (map PObject ps) = Inr R'"
    and "\<forall>p\<in>set ps. \<forall>q\<in>set ps. provide p \<noteq> Some (TObject (oid q))"
    and "map_of R M = None" "multi_for M ps \<noteq> []"
  shows "map_of R' M =
     Some \<lparr>fn = MULTI_PROVIDER_FN, useNew = False, deps = map constituent (multi_for M ps),
           value = EMPTY\<rparr>"
  using assms
proof (induction ps arbitrary: R)
  case Nil
  then show ?case by (simp add: multi_for_def)
next
  case (Cons p ps)
  from Cons.prems(1) obtain tok R1 where
    p: "provide p = Some tok" "processProvider R p tok = Inr R1"
    and rest: "processArray R1 (map PObject ps) = Inr R'"
    by (auto split: sum.splits option.splits if_splits)
  from Cons.prems(2) have self: "provide p \<noteq> Some (TObject (oid p))"
    and tl: "\<forall>p\<in>set ps. \<forall>q\<in>set ps. provide p \<noteq> Some (TObject (oid q))"
    and tl1: "\<forall>p\<in>set ps. provide p \<noteq> Some (TObject (oid p))" by simp_all
  from Cons.prems(4) obtain q where q: "q \<in> set (p # ps)" "multi q" "provide q = Some M"
    unfolding multi_for_nonempty by blast
  with Cons.prems(2) have oidM: "TObject (oid p) \<noteq> M" by force
  show ?case
  proof (cases "multi p \<and> tok = M")
    case True
    from processProvider_placeholder_new[OF p(2,1) Cons.prems(3) _ _ self] True
    have "map_of R1 M = Some \<lparr>fn = MULTI_PROVIDER_FN, useNew = False, deps = [constituent p], value = EMPTY\<rparr>"
      by simp
    from processArray_multi[OF rest tl1 this] True p(1) show ?thesis
      by (simp add: multi_for_def)
  next
    case False
    then have mf: "multi_for M (p # ps) = multi_for M ps"
      using p(1) by (auto simp: multi_for_def)
    show ?thesis
    proof (cases "tok = M")
      case True
      with False have nm: "\<not> multi p" by simp
      from mf Cons.prems(4) have "multi_for M ps \<noteq> []" by simp
      then obtain q' where q': "q' \<in> set ps" "multi q'" "provide q' = Some M"
        unfolding multi_for_nonempty by blast
      from processProvider_status(1)[OF p(2,1)] nm True p(1)
      obtain r1 where r1: "map_of R1 M = Some r1" "fn r1 \<noteq> MULTI_PROVIDER_FN"
        by (auto simp: multi_status_def split: option.splits)
      from processArray_status[OF rest] q' r1 have False
        by (fastforce simp: multi_status_def split: option.splits)
      then show ?thesis ..
    next
      case tokM: False
      from processProvider_untouched[OF p(2,1) tokM oidM] Cons.prems(3)
      have "map_of R1 M = None" by simp
      from Cons.IH[OF rest tl this] mf Cons.prems(4) show ?thesis by simp
    qed
  qed
qed

lemma processProvider_constituent:
  assumes "processProvider R p tok = Inr R1" "multi p" "resolveProvider p = Inr rp"
  shows "map_of R1 (TObject (oid p)) = Some rp"
  using assms
  by (auto simp: processProvider_def map_of_update map_of_map_entry
      split: sum.splits option.splits if_splits prod.splits)

lemma processArray_constituent:
  assumes "processArray R (map PObject ps) = Inr R'"
    and "\<forall>q\<in>set ps. provide q \<noteq> Some (TObject (oid p))"
    and "\<forall>q\<in>set ps. oid q = oid p \<longrightarrow> q = p"
    and "multi p" "resolveProvider p = Inr rp"
    and "p \<in> set ps \<or> map_of R (TObject (oid p)) = Some rp"
  shows "map_of R' (TObject (oid p)) = Some rp"
  using assms(1,2,3,6)
proof (induction ps arbitrary: R)
  case Nil
  then show ?case by simp
next
  case (Cons q ps)
  from Cons.prems(1) obtain tok R1 where
    q: "provide q = Some tok" "processProvider R q tok = Inr R1"
    and rest: "processArray R1 (map PObject ps) = Inr R'"
    by (auto split: sum.splits option.splits if_splits)
  have "p \<in> set ps \<or> map_of R1 (TObject (oid p)) = Some rp"
  proof (cases "q = p")
    case True
    with processProvider_constituent[OF _ assms(4,5)] q(2) show ?thesis by simp
  next
    case False
    show ?thesis
    proof (cases "p \<in> set ps")
      case True
      then show ?thesis ..
    next
      case np: False
      with False Cons.prems(4) have old: "map_of R (TObject (oid p)) = Some rp" by simp
      from Cons.prems(2) q(1) have "TObject (oid p) \<noteq> tok" by auto
      moreover from Cons.prems(3) False have "TObject (oid p) \<noteq> TObject (oid q)" by auto
      ultimately have "map_of R1 (TObject (oid p)) = map_of R (TObject (oid p))"
        by (intro processProvider_other[OF q(2)])
      with old show ?thesis by simp
    qed
  qed
  with Cons.IH[OF rest] Cons.prems(2,3) show ?case by simp
qed

lemma OptionFlags_Default_CheckSelf: "OptionFlags_Default AND OptionFlags_CheckSelf \<noteq> 0"
  by (simp add: OptionFlags_Default_def OptionFlags_CheckSelf_def OptionFlags_CheckParent_def)

lemma processArray_resolved:
  assumes "processArray R (map PObject ps) = Inr R'" "p \<in> set ps"
  shows "\<exists>rp. resolveProvider p = Inr rp"
  using assms
proof (induction ps arbitrary: R)
  case Nil
  then show ?case by simp
next
  case (Cons q ps)
  from Cons.prems(1) obtain tok R1 where
    q: "provide q = Some tok" "processProvider R q tok = Inr R1"
    and rest: "processArray R1 (map PObject ps) = Inr R'"
    by (auto split: sum.splits option.splits if_splits)
  from q(2) have "\<exists>rp. resolveProvider q = Inr rp"
    by (auto simp: processProvider_def split: sum.splits)
  with Cons.IH[OF rest] Cons.prems(2) show ?case by auto
qed

lemma build_multi:
  assumes build: "StaticInjector_new this ps parent = Inr self"
    and tok: "\<forall>p\<in>set (flatten (PArray ps)). \<forall>q\<in>set (flatten (PArray ps)).
                provide p \<noteq> Some (TObject (oid q))"
    and ident: "\<forall>p\<in>set (flatten (PArray ps)). \<forall>q\<in>set (flatten (PArray ps)).
                oid p = oid q \<longrightarrow> p = q"
    and ms: "multi_for M (flatten (PArray ps)) \<noteq> []"
  shows "\<exists>R par. self = StaticInjector this R par \<and>
           map_of R M = Some \<lparr>fn = MULTI_PROVIDER_FN, useNew = False,
                               deps = map constituent (multi_for M (flatten (PArray ps))),
                               value = EMPTY\<rparr> \<and>
           (\<forall>p\<in>set (multi_for M (flatten (PArray ps))).
              \<exists>rp. resolveProvider p = Inr rp \<and> map_of R (TObject (oid p)) = Some rp)"
proof -
  let ?r = "\<lparr>fn = IDENT, useNew = False, deps = [], value = Val (VInjector this)\<rparr>"
  let ?fl = "flatten (PArray ps)"
  from build obtain R where
    R: "recursivelyProcessProviders (AList.update Injector ?r []) (PArray ps) = Inr R"
    and self: "self = StaticInjector this R (case parent of None \<Rightarrow> NullInjector | Some p \<Rightarrow> p)"
    by (auto simp: StaticInjector_new_def split: sum.splits)
  from process_success_plain(1)[OF R] have "plain (PArray ps)" .
  from process_flatten(1)[OF this] R have
    pa: "processArray (AList.update Injector ?r []) (map PObject ?fl) = Inr R"
    by simp
  from ms obtain q where q: "q \<in> set ?fl" "multi q" "provide q = Some M"
    unfolding multi_for_nonempty by blast
  have "M \<noteq> Injector"
  proof
    assume "M = Injector"
    then have "map_of (AList.update Injector ?r []) M = Some ?r" by simp
    from processArray_status[OF pa, THEN conjunct2, rule_format, OF this]
    obtain r' where "map_of R M = Some r'" "fn r' \<noteq> MULTI_PROVIDER_FN" by auto
    moreover from processArray_status[OF pa] q(1) have "multi_status R q" by blast
    ultimately show False using q(2,3) by (simp add: multi_status_def)
  qed
  then have "map_of (AList.update Injector ?r []) M = None" by simp
  from processArray_multi_new[OF pa tok this ms]
  have M: "map_of R M = Some \<lparr>fn = MULTI_PROVIDER_FN, useNew = False,
                               deps = map constituent (multi_for M ?fl), value = EMPTY\<rparr>" .
  have "\<exists>rp. resolveProvider p = Inr rp \<and> map_of R (TObject (oid p)) = Some rp"
    if "p \<in> set (multi_for M ?fl)" for p
  proof -
    from that have p: "p \<in> set ?fl" "multi p" by (simp_all add: multi_for_def)
    from processArray_resolved[OF pa p(1)] obtain rp where rp: "resolveProvider p = Inr rp" ..
    have "map_of R (TObject (oid p)) = Some rp"
      by (rule processArray_constituent[OF pa _ _ p(2) rp]) (use tok ident p(1) in auto)
    with rp show ?thesis by blast
  qed
  with self M show ?thesis by blast
qed

section \<open>Resolved records\<close>

lemma not_eq_CIRCULAR_simps [simp]:
  "\<not> eq_CIRCULAR (Val VUndefined)" "\<not> eq_CIRCULAR (Val VNull)"
  "\<not> eq_CIRCULAR (Val THROW_IF_NOT_FOUND)" "\<not> eq_CIRCULAR (Val (VNum i))"
  "\<not> eq_CIRCULAR (Val (VObj a))" "\<not> eq_CIRCULAR (Val (VArr vs))"
  "\<not> eq_CIRCULAR (Val (VInjector a))"
  by (simp_all add: eq_CIRCULAR_def)

lemma tryResolveToken_cached:
  assumes "value r = Val v" "\<not> eq_CIRCULAR (Val v)"
  shows "tryResolveToken sf call n tok (Some r) self k par nf log = Some (Inr v, self, log)"
  using assms by (simp add: tryResolveToken_def resolveToken_Val catching_def)

lemma get_within_cached:
  assumes "lookup self k tok = Some r" "value r = Val v" "\<not> eq_CIRCULAR (Val v)"
  shows "get_within sf call n self (Nth k) tok arg log = Some (Inr v, self, log)"
proof -
  from assms(1) obtain R where "records_at self k = Some R" "map_of R tok = Some r"
    by (auto simp: lookup_def split: option.splits)
  with assms(2,3) show ?thesis
    by (simp add: get_within_Nth tryResolveToken_cached decorating_def)
qed

lemma get_cached:
  assumes "map_of R tok = Some r" "value r = Val v" "\<not> eq_CIRCULAR (Val v)"
  shows "get sf call (StaticInjector this R par) tok arg log =
         Some (Inr v, StaticInjector this R par, log)"
  unfolding get_def using assms by (intro get_within_cached[of _ _ _ r]) (simp_all add: lookup_def)

section \<open>Entries that do not check the own map\<close>

lemma CheckParent_bit: "x AND OptionFlags_CheckParent = 0 \<longleftrightarrow> \<not> bit x 2"
  unfolding OptionFlags_CheckParent_def push_bit_of_1
  by (rule and_exp_eq_0_iff_not_bit)

lemma annotate_CheckParent_cleared:
  "\<not> bit opts 2 \<Longrightarrow> \<not> bit (snd (annotate as (tok, opts))) 2"
proof (induction as arbitrary: tok opts)
  case Nil
  then show ?case by simp
next
  case (Cons a as)
  then show ?case
    by (cases a) (simp_all add: bit_and_iff bit_or_iff bit_not_iff
        OptionFlags_Optional_def OptionFlags_CheckSelf_def OptionFlags_CheckParent_def bit_push_bit_iff bit_1_iff)
qed

lemma annotate_Self:
  "Self \<in> set as \<Longrightarrow> \<not> bit (snd (annotate as (tok, opts))) 2"
proof (induction as arbitrary: tok opts)
  case Nil
  then show ?case by simp
next
  case (Cons a as)
  show ?case
  proof (cases "a = Self")
    case True
    have "\<not> bit (opts AND NOT OptionFlags_CheckParent) 2"
      by (simp add: bit_and_iff bit_not_iff OptionFlags_CheckParent_def bit_push_bit_iff bit_1_iff)
    from annotate_CheckParent_cleared[OF this] True show ?thesis by simp
  next
    case False
    with Cons.prems have "Self \<in> set as" by simp
    from Cons.IH[OF this] show ?thesis by (cases a) simp_all
  qed
qed

lemma annotate_no_Self:
  "Self \<notin> set as \<Longrightarrow> bit opts 2 \<Longrightarrow> bit (snd (annotate as (tok, opts))) 2"
proof (induction as arbitrary: tok opts)
  case Nil
  then show ?case by simp
next
  case (Cons a as)
  then show ?case
    by (cases a) (simp_all add: bit_and_iff bit_or_iff bit_not_iff
        OptionFlags_Optional_def OptionFlags_CheckSelf_def OptionFlags_CheckParent_def bit_push_bit_iff bit_1_iff)
qed

lemma computeDep_Self:
  "options (computeDep (DepArray a annotations)) AND OptionFlags_CheckParent = 0 \<longleftrightarrow>
   Self \<in> set annotations"
proof -
  have d: "bit OptionFlags_Default 2"
    by (simp add: OptionFlags_Default_def OptionFlags_CheckSelf_def OptionFlags_CheckParent_def
        bit_or_iff bit_push_bit_iff bit_1_iff)
  obtain t opts where a: "annotate annotations (TObject a, OptionFlags_Default) = (t, opts)"
    by (cases "annotate annotations (TObject a, OptionFlags_Default)")
  have "bit opts 2 \<longleftrightarrow> Self \<notin> set annotations"
    using annotate_Self[of annotations "TObject a" OptionFlags_Default]
      annotate_no_Self[OF _ d, of annotations "TObject a"] a
    by (cases "Self \<in> set annotations") simp_all
  with a show ?thesis by (simp add: computeDep_def CheckParent_bit)
qed

lemma tryResolveToken_no_record:
  "tryResolveToken sf call (Suc m) tok None self k par nf log =
     (case get_within sf call m self par tok (Some nf) log of
        None \<Rightarrow> None
      | Some (Inl e, self1, log1) \<Rightarrow> Some (Inl (add_path tok e), self1, log1)
      | Some (Inr v, self1, log1) \<Rightarrow> Some (Inr v, self1, log1))"
proof (cases "get_within sf call m self par tok (Some nf) log")
  case None
  then show ?thesis by (simp add: tryResolveToken_def resolveToken_None catching_def)
next
  case (Some x)
  obtain res s1 l1 where x: "x = (res, s1, l1)" by (cases x)
  show ?thesis
  proof (cases res)
    case (Inl e)
    with Some x get_within_clean[of sf call m self par tok "Some nf" log e s1 l1] have "clean e" by simp
    with Some x Inl show ?thesis
      by (simp add: tryResolveToken_def resolveToken_None catching_def catch_clean)
  next
    case (Inr v)
    with Some x show ?thesis by (simp add: tryResolveToken_def resolveToken_None catching_def)
  qed
qed

lemma tryResolveToken_no_record_0:
  "tryResolveToken sf call 0 tok None self k par nf log = None"
  by (simp add: resolveToken_None_0)

lemma resolveDeps_not_CheckSelf:
  assumes "options d AND OptionFlags_CheckSelf = 0"
  shows "resolveDeps sf call (Suc m) (d # rest) acc self k par log =
           (case get_within sf call m self
                   (if options d AND OptionFlags_CheckParent = 0 then NULL_INJECTOR else par)
                   (token d) (Some (notFoundValue_of (options d))) log of
              None \<Rightarrow> None
            | Some (Inl e, self1, log1) \<Rightarrow> Some (Inl (add_path (token d) e), self1, log1)
            | Some (Inr v, self1, log1) \<Rightarrow> resolveDeps sf call (Suc m) rest (acc @ [v]) self1 k par log1)"
  using assms
  by (simp add: resolveDeps_step resolveDep_def tryResolveToken_no_record
      split: option.splits sum.splits prod.splits)

lemma Optional_bit: "x AND OptionFlags_Optional \<noteq> 0 \<longleftrightarrow> bit x 0"
  unfolding OptionFlags_Optional_def push_bit_of_1
  using and_exp_eq_0_iff_not_bit[of x 0] by simp

lemma annotate_Optional_kept:
  "bit opts 0 \<Longrightarrow> bit (snd (annotate as (tok, opts))) 0"
proof (induction as arbitrary: tok opts)
  case Nil
  then show ?case by simp
next
  case (Cons a as)
  then show ?case
    by (cases a) (simp_all add: bit_and_iff bit_or_iff bit_not_iff
        OptionFlags_Optional_def OptionFlags_CheckSelf_def OptionFlags_CheckParent_def bit_push_bit_iff bit_1_iff)
qed

lemma annotate_Optional:
  "bit (snd (annotate as (tok, opts))) 0 \<longleftrightarrow> bit opts 0 \<or> Optional \<in> set as"
proof (induction as arbitrary: tok opts)
  case Nil
  then show ?case by simp
next
  case (Cons a as)
  then show ?case
    by (cases a) (auto simp: bit_and_iff bit_or_iff bit_not_iff
        OptionFlags_Optional_def OptionFlags_CheckSelf_def OptionFlags_CheckParent_def bit_push_bit_iff bit_1_iff)
qed

lemma computeDep_Optional:
  "options (computeDep (DepArray a annotations)) AND OptionFlags_Optional \<noteq> 0 \<longleftrightarrow>
   Optional \<in> set annotations"
proof -
  have d: "\<not> bit OptionFlags_Default 0"
    by (simp add: OptionFlags_Default_def OptionFlags_CheckSelf_def OptionFlags_CheckParent_def
        bit_or_iff bit_push_bit_iff bit_1_iff)
  obtain t opts where a: "annotate annotations (TObject a, OptionFlags_Default) = (t, opts)"
    by (cases "annotate annotations (TObject a, OptionFlags_Default)")
  with annotate_Optional[of annotations "TObject a" OptionFlags_Default] d
  have "bit opts 0 \<longleftrightarrow> Optional \<in> set annotations" by simp
  with a show ?thesis by (simp add: computeDep_def Optional_bit)
qed

section \<open>What every call preserves\<close>

lemma invoke_cases [consumes 1, case_names Ident Multi Fn]:
  assumes "invoke sf call m self log f new args = Some (res, self', log')"
  obtains
    (Ident) "f = IDENT" "res = Inr (case args of [] \<Rightarrow> VUndefined | v # _ \<Rightarrow> v)"
      "self' = self" "log' = log"
  | (Multi) "f = MULTI_PROVIDER_FN" "res = Inr (VArr args)" "self' = self" "log' = log"
  | (Fn) j where "f = Fn j" "run sf call m (call log j new args) self log = Some (res, self', log')"
  using assms by (cases f) (auto simp: invoke_def)

lemma resolveDep_consistent:
  "resolveDep sf call n d self k par log = Some x \<Longrightarrow>
   \<exists>rec pa. (rec = None \<or> rec = lookup self k (token d)) \<and>
     tryResolveToken sf call n (token d) rec self k pa (notFoundValue_of (options d)) log = Some x"
proof -
  assume a: "resolveDep sf call n d self k par log = Some x"
  define rec where "rec = (if options d AND OptionFlags_CheckSelf \<noteq> 0
                         then lookup self k (token d) else None)"
  define pa where "pa = (if rec = None \<and> options d AND OptionFlags_CheckParent = 0
                        then NULL_INJECTOR else par)"
  have c: "rec = None \<or> rec = lookup self k (token d)" by (simp add: rec_def)
  from a have "tryResolveToken sf call n (token d) rec self k pa (notFoundValue_of (options d)) log = Some x"
    by (simp add: resolveDep_def Let_def rec_def pa_def)
  with c show ?thesis by blast
qed

text \<open>
  A relation between the state before and the state after that holds for the writes of
  \<open>resolveToken\<close> and of the \<open>catch\<close> block of \<open>tryResolveToken\<close>, around calls for which
  it holds, holds for every call.
\<close>

lemma calls_preserve:
  fixes \<Phi> :: "injector \<Rightarrow> invocation list \<Rightarrow> injector \<Rightarrow> invocation list \<Rightarrow> bool"
  assumes refl: "\<And>s l. \<Phi> s l s l"
    and trans: "\<And>s l s1 l1 s2 l2. \<Phi> s l s1 l1 \<Longrightarrow> \<Phi> s1 l1 s2 l2 \<Longrightarrow> \<Phi> s l s2 l2"
    and circ: "\<And>s l k tok r. lookup s k tok = Some r \<Longrightarrow> eq_CIRCULAR (value r) \<Longrightarrow>
                 \<Phi> s l (reset k tok s) l"
    and fail: "\<And>s l k tok r s1 l1. lookup s k tok = Some r \<Longrightarrow> value r = EMPTY \<Longrightarrow>
                 \<Phi> (setValue k tok CIRCULAR s) l s1 l1 \<Longrightarrow> \<Phi> s l (reset k tok s1) l1"
    and threw: "\<And>s l k tok r s2 l2 args s'. lookup s k tok = Some r \<Longrightarrow> value r = EMPTY \<Longrightarrow>
                 \<Phi> (setValue k tok CIRCULAR s) l s2 l2 \<Longrightarrow> s' = s2 \<or> s' = reset k tok s2 \<Longrightarrow>
                 \<Phi> s l s' (l2 @ [(k, tok, fn r, useNew r, args)])"
    and ok: "\<And>s l k tok r s2 l2 args v. lookup s k tok = Some r \<Longrightarrow> value r = EMPTY \<Longrightarrow>
                 \<Phi> (setValue k tok CIRCULAR s) l s2 l2 \<Longrightarrow>
                 \<Phi> s l (setValue k tok (Val v) s2) (l2 @ [(k, tok, fn r, useNew r, args)])"
  shows "(\<forall>tok rec self k par nf log res self' log'.
            (rec = None \<or> rec = lookup self k tok) \<longrightarrow>
            tryResolveToken sf call n tok rec self k par nf log = Some (res, self', log') \<longrightarrow>
            \<Phi> self log self' log') \<and>
         (\<forall>ds acc self k par log res self' log'.
            resolveDeps sf call n ds acc self k par log = Some (res, self', log') \<longrightarrow>
            \<Phi> self log self' log') \<and>
         (\<forall>p self log res self' log'.
            run sf call n p self log = Some (res, self', log') \<longrightarrow> \<Phi> self log self' log') \<and>
         (\<forall>self ref tok arg log res self' log'.
            get_within sf call n self ref tok arg log = Some (res, self', log') \<longrightarrow>
            \<Phi> self log self' log')"
  (is "?P n \<and> ?Q n \<and> ?R n \<and> ?G n")
proof (induction n rule: less_induct)
  case (less n)
  have IHQ: "\<Phi> self log self' log'"
    if "m < n" "resolveDeps sf call m ds acc self k par log = Some (res, self', log')"
    for m ds acc self k par log res self' log'
  proof -
    from less.IH[OF that(1)] have "?Q m" by (elim conjE)
    from this[rule_format, OF that(2)] show ?thesis .
  qed
  have IHR: "\<Phi> self log self' log'"
    if "m < n" "run sf call m p self log = Some (res, self', log')"
    for m p self log res self' log'
  proof -
    from less.IH[OF that(1)] have "?R m" by (elim conjE)
    from this[rule_format, OF that(2)] show ?thesis .
  qed
  have IHG: "\<Phi> self log self' log'"
    if "m < n" "get_within sf call m self ref tok arg log = Some (res, self', log')"
    for m self ref tok arg log res self' log'
  proof -
    from less.IH[OF that(1)] have "?G m" by (elim conjE)
    from this[rule_format, OF that(2)] show ?thesis .
  qed
  have IHI: "\<Phi> self log self' log'"
    if "m < n" "invoke sf call m self log f new args = Some (res, self', log')"
    for m self log f new args res self' log'
    using that(2)
  proof (cases rule: invoke_cases)
    case (Fn j)
    from IHR[OF that(1) Fn(2)] show ?thesis .
  qed (simp_all add: refl)
  have P: "?P n"
  proof (intro allI impI)
    fix tok rec self k par nf log res self' log'
    assume c: "rec = None \<or> rec = lookup self k tok"
      and t: "tryResolveToken sf call n tok rec self k par nf log = Some (res, self', log')"
    from t show "\<Phi> self log self' log'"
    proof (cases rule: tryResolveToken_cases)
      case (Cached r v)
      then show ?thesis by (simp add: refl)
    next
      case (Circular r)
      with c have "lookup self k tok = Some r" by auto
      from circ[OF this Circular(2)] Circular show ?thesis by simp
    next
      case (DepsFail r m e self1)
      with c have l: "lookup self k tok = Some r" by auto
      from DepsFail(3) have "m < n" by simp
      from fail[OF l DepsFail(2) IHQ[OF this DepsFail(4)]] DepsFail(6) show ?thesis by simp
    next
      case (FnThrow r m args self1 log1 x self2 log2 e1)
      with c have l: "lookup self k tok = Some r" by auto
      from FnThrow(3) have m: "m < n" by simp
      from trans[OF IHQ[OF m FnThrow(4)] IHI[OF m FnThrow(5)]]
      have "\<Phi> (setValue k tok CIRCULAR self) log self2 log2" .
      from threw[OF l FnThrow(2) this catch_result(2)[OF FnThrow(6)]] FnThrow(8)
      show ?thesis by simp
    next
      case (FnOk r m args self1 log1 v self2 log2)
      with c have l: "lookup self k tok = Some r" by auto
      from FnOk(3) have m: "m < n" by simp
      from trans[OF IHQ[OF m FnOk(4)] IHI[OF m FnOk(5)]]
      have "\<Phi> (setValue k tok CIRCULAR self) log self2 log2" .
      from ok[OF l FnOk(2) this] FnOk(7,8) show ?thesis by simp
    next
      case (ParentFail m e)
      then have "m < n" by simp
      from IHG[OF this ParentFail(3)] show ?thesis .
    next
      case (ParentOk m v)
      then have "m < n" by simp
      from IHG[OF this ParentOk(3)] show ?thesis .
    qed
  qed
  have Q: "?Q n"
  proof (intro allI impI)
    fix ds acc self k par log res self' log'
    assume "resolveDeps sf call n ds acc self k par log = Some (res, self', log')"
    then show "\<Phi> self log self' log'"
    proof (induction ds arbitrary: acc self log)
      case Nil
      then show ?case by (simp add: refl)
    next
      case (Cons d ds)
      from Cons.prems obtain r1 s1 l1 where
        1: "resolveDep sf call n d self k par log = Some (r1, s1, l1)"
        by (auto simp: resolveDeps_step split: option.splits)
      from resolveDep_consistent[OF 1] obtain rec pa where
        "rec = None \<or> rec = lookup self k (token d)"
        "tryResolveToken sf call n (token d) rec self k pa (notFoundValue_of (options d)) log =
           Some (r1, s1, l1)" by blast
      from P[rule_format, OF this] have p: "\<Phi> self log s1 l1" .
      show ?case
      proof (cases r1)
        case (Inl e)
        with Cons.prems 1 p show ?thesis by (simp add: resolveDeps_step)
      next
        case (Inr v)
        with Cons.prems 1 have "resolveDeps sf call n ds (acc @ [v]) s1 k par l1 = Some (res, self', log')"
          by (simp add: resolveDeps_step)
        from trans[OF p Cons.IH[OF this]] show ?thesis .
      qed
    qed
  qed
  have R: "?R n"
  proof (intro allI impI)
    fix p self log res self' log'
    assume r: "run sf call n p self log = Some (res, self', log')"
    show "\<Phi> self log self' log'"
    proof (cases p)
      case (Return v)
      with r show ?thesis by (simp add: refl)
    next
      case (Throw x)
      with r show ?thesis by (simp add: refl)
    next
      case (Get ref tok arg cont)
      with r obtain m where n: "n = Suc m" by (cases n) auto
      with r Get obtain r1 s1 l1 where
        g: "get_within sf call m self ref tok arg log = Some (r1, s1, l1)"
        and c: "run sf call m (cont r1) s1 l1 = Some (res, self', log')"
        by (auto simp: run_Get split: option.splits)
      from n have "m < n" by simp
      from trans[OF IHG[OF this g] IHR[OF this c]] show ?thesis .
    qed
  qed
  have G: "?G n"
  proof (intro allI impI)
    fix self ref tok arg log res self' log'
    assume g: "get_within sf call n self ref tok arg log = Some (res, self', log')"
    show "\<Phi> self log self' log'"
    proof (cases ref)
      case NULL_INJECTOR
      with g show ?thesis by (simp add: get_within_NULL refl)
    next
      case (Nth k)
      show ?thesis
      proof (cases "records_at self k")
        case None
        with g Nth show ?thesis by (simp add: get_within_beyond refl)
      next
        case (Some R)
        with g Nth obtain r1 where
          "tryResolveToken sf call n tok (map_of R tok) self k (Nth (Suc k))
             (case arg of None \<Rightarrow> VUndefined | Some v \<Rightarrow> v) log = Some (r1, self', log')"
          by (auto simp: get_within_Nth decorating_Some)
        moreover from Some have "map_of R tok = None \<or> map_of R tok = lookup self k tok"
          by (simp add: lookup_def)
        ultimately show ?thesis using P[rule_format] by blast
      qed
    qed
  qed
  from P Q R G show ?case by (intro conjI)
qed

section \<open>Resolved records stay as they are\<close>

lemma lookup_reset_other:
  "\<not> (j = k \<and> u = t) \<Longrightarrow> lookup (reset k t s) j u = lookup s j u"
  by (auto simp: reset_def lookup_setValue)

lemma lookup_reset_same:
  "lookup (reset k t s) k t =
     (case lookup s k t of
        None \<Rightarrow> None
      | Some r \<Rightarrow> Some (if eq_CIRCULAR (value r) then r\<lparr>value := EMPTY\<rparr> else r))"
  by (auto simp: reset_def lookup_setValue split: option.splits)

lemma is_resolved_simps [simp]:
  "\<not> is_resolved EMPTY" "\<not> is_resolved CIRCULAR"
  "is_resolved (Val v) \<longleftrightarrow> \<not> eq_CIRCULAR (Val v)"
  by (simp_all add: is_resolved_def)

lemma is_resolved_not_eq_CIRCULAR: "is_resolved s \<Longrightarrow> \<not> eq_CIRCULAR s"
  by (cases s) simp_all

lemma keeps_refl: "keeps s l s l"
  by (simp add: keeps_def)

lemma keeps_trans:
  assumes "keeps s l s1 l1" "keeps s1 l1 s2 l2"
  shows "keeps s l s2 l2"
proof -
  from assms(1) obtain n1 where 1: "shape s1 = shape s" "l1 = l @ n1"
    "\<And>k t r. lookup s k t = Some r \<Longrightarrow> is_resolved (value r) \<Longrightarrow>
       lookup s1 k t = Some r \<and> (\<forall>e\<in>set n1. \<not> (fst e = k \<and> fst (snd e) = t))"
    unfolding keeps_def by blast
  from assms(2) obtain n2 where 2: "shape s2 = shape s1" "l2 = l1 @ n2"
    "\<And>k t r. lookup s1 k t = Some r \<Longrightarrow> is_resolved (value r) \<Longrightarrow>
       lookup s2 k t = Some r \<and> (\<forall>e\<in>set n2. \<not> (fst e = k \<and> fst (snd e) = t))"
    unfolding keeps_def by blast
  show ?thesis
    unfolding keeps_def
  proof (intro conjI exI[of _ "n1 @ n2"] allI impI)
    show "shape s2 = shape s" using 1(1) 2(1) by simp
    show "l2 = l @ n1 @ n2" using 1(2) 2(2) by simp
  next
    fix k t r
    assume a: "lookup s k t = Some r" "is_resolved (value r)"
    from 1(3)[OF a] have b: "lookup s1 k t = Some r"
      and c: "\<forall>e\<in>set n1. \<not> (fst e = k \<and> fst (snd e) = t)" by blast+
    from 2(3)[OF b a(2)] c
    show "lookup s2 k t = Some r" "\<forall>e\<in>set (n1 @ n2). \<not> (fst e = k \<and> fst (snd e) = t)"
      by auto
  qed
qed

lemma keeps_circ:
  assumes "lookup s k tok = Some r" "eq_CIRCULAR (value r)"
  shows "keeps s l (reset k tok s) l"
  unfolding keeps_def
proof (intro conjI exI[of _ "[]"] allI impI)
  fix j u r'
  assume a: "lookup s j u = Some r'" "is_resolved (value r')"
  with assms is_resolved_not_eq_CIRCULAR[of "value r'"] have "\<not> (j = k \<and> u = tok)" by auto
  with a show "lookup (reset k tok s) j u = Some r'" by (simp add: lookup_reset_other)
qed simp_all

lemma keeps_in_progress:
  assumes r: "lookup s k tok = Some r" "value r = EMPTY"
    and d: "keeps (setValue k tok CIRCULAR s) l s2 l2"
    and s': "s' = s2 \<or> s' = reset k tok s2 \<or> s' = setValue k tok x s2"
    and new: "extra = [] \<or> (\<exists>f new args. extra = [(k, tok, f, new, args)])"
  shows "keeps s l s' (l2 @ extra)"
proof -
  from d obtain n1 where 1: "shape s2 = shape (setValue k tok CIRCULAR s)" "l2 = l @ n1"
    "\<And>j u r'. lookup (setValue k tok CIRCULAR s) j u = Some r' \<Longrightarrow> is_resolved (value r') \<Longrightarrow>
       lookup s2 j u = Some r' \<and> (\<forall>e\<in>set n1. \<not> (fst e = j \<and> fst (snd e) = u))"
    unfolding keeps_def by blast
  show ?thesis
    unfolding keeps_def
  proof (intro conjI exI[of _ "n1 @ extra"] allI impI)
    from s' 1(1) show "shape s' = shape s" by auto
    from 1(2) show "l2 @ extra = l @ n1 @ extra" by simp
  next
    fix j u r'
    assume a: "lookup s j u = Some r'" "is_resolved (value r')"
    with r have ne: "\<not> (j = k \<and> u = tok)" by auto
    with a have "lookup (setValue k tok CIRCULAR s) j u = Some r'" by (auto simp: lookup_setValue)
    from 1(3)[OF this a(2)] have b: "lookup s2 j u = Some r'"
      and c: "\<forall>e\<in>set n1. \<not> (fst e = j \<and> fst (snd e) = u)" by blast+
    from s' b ne show "lookup s' j u = Some r'"
      by (auto simp: lookup_reset_other lookup_setValue)
    from c new ne show "\<forall>e\<in>set (n1 @ extra). \<not> (fst e = j \<and> fst (snd e) = u)" by auto
  qed
qed

lemma keeps_aux:
  "(\<forall>tok rec self k par nf log res self' log'.
      (rec = None \<or> rec = lookup self k tok) \<longrightarrow>
      tryResolveToken sf call n tok rec self k par nf log = Some (res, self', log') \<longrightarrow>
      keeps self log self' log') \<and>
   (\<forall>ds acc self k par log res self' log'.
      resolveDeps sf call n ds acc self k par log = Some (res, self', log') \<longrightarrow>
      keeps self log self' log') \<and>
   (\<forall>p self log res self' log'.
      run sf call n p self log = Some (res, self', log') \<longrightarrow> keeps self log self' log') \<and>
   (\<forall>self ref tok arg log res self' log'.
      get_within sf call n self ref tok arg log = Some (res, self', log') \<longrightarrow>
      keeps self log self' log')"
proof (rule calls_preserve)
  show "keeps s l s l" for s l by (rule keeps_refl)
  show "keeps s l s2 l2" if "keeps s l s1 l1" "keeps s1 l1 s2 l2" for s l s1 l1 s2 l2
    using that by (rule keeps_trans)
  show "keeps s l (reset k tok s) l" if "lookup s k tok = Some r" "eq_CIRCULAR (value r)"
    for s l k tok r using that by (rule keeps_circ)
  show "keeps s l (reset k tok s1) l1"
    if "lookup s k tok = Some r" "value r = EMPTY" "keeps (setValue k tok CIRCULAR s) l s1 l1"
    for s l k tok r s1 l1
    using keeps_in_progress[OF that, of "reset k tok s1" undefined "[]"] by simp
  show "keeps s l s' (l2 @ [(k, tok, fn r, useNew r, args)])"
    if "lookup s k tok = Some r" "value r = EMPTY" "keeps (setValue k tok CIRCULAR s) l s2 l2"
      "s' = s2 \<or> s' = reset k tok s2"
    for s l k tok r s2 l2 args s'
    using keeps_in_progress[OF that(1,2,3), of s' undefined "[(k, tok, fn r, useNew r, args)]"] that(4)
    by auto
  show "keeps s l (setValue k tok (Val v) s2) (l2 @ [(k, tok, fn r, useNew r, args)])"
    if "lookup s k tok = Some r" "value r = EMPTY" "keeps (setValue k tok CIRCULAR s) l s2 l2"
    for s l k tok r s2 l2 args v
    using keeps_in_progress[OF that, of "setValue k tok (Val v) s2" "Val v"
        "[(k, tok, fn r, useNew r, args)]"] by auto
qed

lemma tryResolveToken_keeps:
  assumes "rec = None \<or> rec = lookup self k tok"
    and "tryResolveToken sf call n tok rec self k par nf log = Some (res, self', log')"
  shows "keeps self log self' log'"
  using keeps_aux[where sf=sf and call=call and n=n, THEN conjunct1, rule_format, OF assms] .

lemma resolveDeps_keeps:
  assumes "resolveDeps sf call n ds acc self k par log = Some (res, self', log')"
  shows "keeps self log self' log'"
  using keeps_aux[where sf=sf and call=call and n=n, THEN conjunct2, THEN conjunct1, rule_format, OF assms] .

lemma run_keeps:
  assumes "run sf call n p self log = Some (res, self', log')"
  shows "keeps self log self' log'"
  using keeps_aux[where sf=sf and call=call and n=n, THEN conjunct2, THEN conjunct2, THEN conjunct1,
      rule_format, OF assms] .

lemma get_within_keeps:
  assumes "get_within sf call n self ref tok arg log = Some (res, self', log')"
  shows "keeps self log self' log'"
  using keeps_aux[where sf=sf and call=call and n=n, THEN conjunct2, THEN conjunct2, THEN conjunct2,
      rule_format, OF assms] .

lemma invoke_keeps:
  assumes "invoke sf call m self log f new args = Some (res, self', log')"
  shows "keeps self log self' log'"
  using assms by (cases rule: invoke_cases) (auto simp: keeps_refl dest: run_keeps)

lemma resolveDep_keeps:
  assumes "resolveDep sf call n d self k par log = Some (res, self', log')"
  shows "keeps self log self' log'"
proof -
  from resolveDep_consistent[OF assms] obtain rec pa where
    "rec = None \<or> rec = lookup self k (token d)"
    "tryResolveToken sf call n (token d) rec self k pa (notFoundValue_of (options d)) log =
       Some (res, self', log')" by blast
  then show ?thesis by (rule tryResolveToken_keeps)
qed

lemma keeps_shape: "keeps s l s' l' \<Longrightarrow> shape s' = shape s"
  by (simp add: keeps_def)

lemma keeps_resolved:
  "keeps s l s' l' \<Longrightarrow> lookup s k t = Some r \<Longrightarrow> is_resolved (value r) \<Longrightarrow> lookup s' k t = Some r"
  unfolding keeps_def by blast

lemma keeps_log: "keeps s l s' l' \<Longrightarrow> \<exists>new. l' = l @ new"
  unfolding keeps_def by blast

text \<open>A call that returns a value for a token of the own map leaves it in the record.\<close>

lemma tryResolveToken_stores:
  assumes "lookup self k tok = Some r"
    and "tryResolveToken sf call n tok (Some r) self k par nf log = Some (Inr v, self', log')"
  shows "lookup self' k tok = Some (r\<lparr>value := Val v\<rparr>)"
  using assms(2)
proof (cases rule: tryResolveToken_cases)
  case (Cached r' v')
  with assms(1) show ?thesis by simp
next
  case (FnOk r' m args self1 log1 v' self2 log2)
  from resolveDeps_keeps[OF FnOk(4)] invoke_keeps[OF FnOk(5)]
  have "shape self2 = shape (setValue k tok CIRCULAR self)" by (simp add: keeps_shape)
  then have "shape self2 = shape self" by simp
  from same_shape_lookup[OF this assms(1)] obtain x where "lookup self2 k tok = Some (r\<lparr>value := x\<rparr>)"
    by blast
  with FnOk(6,7) show ?thesis by (simp add: lookup_setValue)
qed simp_all

lemma gets_keeps:
  "gets sf call (self, log) calls = Some (self', log') \<Longrightarrow> keeps self log self' log'"
proof (induction calls arbitrary: self log)
  case Nil
  then show ?case by (simp add: keeps_refl)
next
  case (Cons c calls)
  obtain n ref tok arg where c: "c = (n, ref, tok, arg)" by (cases c)
  with Cons.prems obtain res s1 l1 where
    g: "get_within sf call n self ref tok arg log = Some (res, s1, l1)"
    and r: "gets sf call (s1, l1) calls = Some (self', log')"
    by (auto split: option.splits)
  from keeps_trans[OF get_within_keeps[OF g] Cons.IH[OF r]] show ?case .
qed

lemma get_within_stores:
  assumes "lookup self k tok = Some r"
    and "get_within sf call n self (Nth k) tok arg log = Some (Inr v, self', log')"
  shows "lookup self' k tok = Some (r\<lparr>value := Val v\<rparr>)"
proof -
  from assms(1) obtain R where R: "records_at self k = Some R" "map_of R tok = Some r"
    by (auto simp: lookup_def split: option.splits)
  with assms(2) have "tryResolveToken sf call n tok (Some r) self k (Nth (Suc k))
      (case arg of None \<Rightarrow> VUndefined | Some v \<Rightarrow> v) log = Some (Inr v, self', log')"
    by (auto simp: get_within_Nth decorating_Some)
  from tryResolveToken_stores[OF assms(1) this] show ?thesis .
qed

section \<open>Entries whose records are resolved, and the values of a list of entries\<close>

lemma resolveDep_cached:
  assumes "options d AND OptionFlags_CheckSelf \<noteq> 0" "lookup self k (token d) = Some r"
    "value r = Val v" "\<not> eq_CIRCULAR (Val v)"
  shows "resolveDep sf call n d self k par log = Some (Inr v, self, log)"
  using assms by (simp add: resolveDep_def Let_def tryResolveToken_cached)

lemma resolveDeps_cached:
  assumes "list_all2 (\<lambda>d v. options d AND OptionFlags_CheckSelf \<noteq> 0 \<and>
             (\<exists>r. lookup self k (token d) = Some r \<and> value r = Val v \<and> \<not> eq_CIRCULAR (Val v))) ds vs"
  shows "resolveDeps sf call n ds acc self k par log = Some (Inr (acc @ vs), self, log)"
  using assms
proof (induction ds vs arbitrary: acc rule: list_all2_induct)
  case Nil
  show ?case by simp
next
  case (Cons d ds v vs)
  from Cons.hyps(1) obtain r where "options d AND OptionFlags_CheckSelf \<noteq> 0"
    "lookup self k (token d) = Some r" "value r = Val v" "\<not> eq_CIRCULAR (Val v)" by blast
  from resolveDep_cached[OF this] Cons.IH[of "acc @ [v]"] show ?case
    by (simp add: resolveDeps_step)
qed

lemma resolveDep_own:
  assumes "options d AND OptionFlags_CheckSelf \<noteq> 0" "lookup self k (token d) = Some r"
  shows "resolveDep sf call n d self k par log =
     tryResolveToken sf call n (token d) (Some r) self k par (notFoundValue_of (options d)) log"
  using assms by (simp add: resolveDep_def Let_def)

lemma resolveDeps_values:
  assumes "resolveDeps sf call n ds acc self k par log = Some (Inr args, s', l')"
    and "\<forall>d\<in>set ds. options d AND OptionFlags_CheckSelf \<noteq> 0 \<and> lookup self k (token d) \<noteq> None"
  shows "\<exists>vs. args = acc @ vs \<and> length vs = length ds \<and> keeps self log s' l' \<and>
     (\<forall>i<length ds.
        (\<forall>r. lookup self k (token (ds ! i)) = Some r \<longrightarrow> is_resolved (value r) \<longrightarrow>
             value r = Val (vs ! i)) \<and>
        (is_resolved (Val (vs ! i)) \<longrightarrow>
           map_option value (lookup s' k (token (ds ! i))) = Some (Val (vs ! i))))"
  using assms
proof (induction ds arbitrary: acc self log)
  case Nil
  then show ?case by (simp add: keeps_refl)
next
  case (Cons d ds)
  from Cons.prems(2) obtain r where d: "options d AND OptionFlags_CheckSelf \<noteq> 0"
    "lookup self k (token d) = Some r" by auto
  from Cons.prems(1) obtain v s1 l1 where
    rd: "resolveDep sf call n d self k par log = Some (Inr v, s1, l1)"
    and rest: "resolveDeps sf call n ds (acc @ [v]) s1 k par l1 = Some (Inr args, s', l')"
    by (auto simp: resolveDeps_step split: option.splits sum.splits)
  from rd have t: "tryResolveToken sf call n (token d) (Some r) self k par
      (notFoundValue_of (options d)) log = Some (Inr v, s1, l1)"
    by (simp add: resolveDep_own[OF d])
  from tryResolveToken_stores[OF d(2) t] have st: "lookup s1 k (token d) = Some (r\<lparr>value := Val v\<rparr>)" .
  from resolveDep_keeps[OF rd] have k1: "keeps self log s1 l1" .
  have "\<forall>d\<in>set ds. options d AND OptionFlags_CheckSelf \<noteq> 0 \<and> lookup s1 k (token d) \<noteq> None"
    using Cons.prems(2) same_shape_lookup_None[OF keeps_shape[OF k1]] by simp
  from Cons.IH[OF rest this] obtain vs where vs: "args = (acc @ [v]) @ vs" "length vs = length ds"
    "keeps s1 l1 s' l'"
    "\<forall>i<length ds.
        (\<forall>r. lookup s1 k (token (ds ! i)) = Some r \<longrightarrow> is_resolved (value r) \<longrightarrow>
             value r = Val (vs ! i)) \<and>
        (is_resolved (Val (vs ! i)) \<longrightarrow>
           map_option value (lookup s' k (token (ds ! i))) = Some (Val (vs ! i)))"
    by blast
  have "\<forall>i<length (d # ds).
        (\<forall>r. lookup self k (token ((d # ds) ! i)) = Some r \<longrightarrow> is_resolved (value r) \<longrightarrow>
             value r = Val ((v # vs) ! i)) \<and>
        (is_resolved (Val ((v # vs) ! i)) \<longrightarrow>
           map_option value (lookup s' k (token ((d # ds) ! i))) = Some (Val ((v # vs) ! i)))"
  proof (intro allI impI)
    fix i assume i: "i < length (d # ds)"
    show "(\<forall>r. lookup self k (token ((d # ds) ! i)) = Some r \<longrightarrow> is_resolved (value r) \<longrightarrow>
             value r = Val ((v # vs) ! i)) \<and>
        (is_resolved (Val ((v # vs) ! i)) \<longrightarrow>
           map_option value (lookup s' k (token ((d # ds) ! i))) = Some (Val ((v # vs) ! i)))"
    proof (cases i)
      case 0
      have a: "value r = Val v" if "is_resolved (value r)"
      proof -
        from that obtain w where w: "value r = Val w" "\<not> eq_CIRCULAR (Val w)"
          by (cases "value r") (auto simp: is_resolved_def)
        from tryResolveToken_cached[OF this] t show ?thesis using w(1) by simp
      qed
      have b: "map_option value (lookup s' k (token d)) = Some (Val v)" if "is_resolved (Val v)"
      proof -
        from that have "is_resolved (value (r\<lparr>value := Val v\<rparr>))" by simp
        from keeps_resolved[OF vs(3) st this] show ?thesis by simp
      qed
      from 0 a b d(2) show ?thesis by simp
    next
      case (Suc j)
      with i have j: "j < length ds" by simp
      have a: "value r' = Val (vs ! j)"
        if "lookup self k (token (ds ! j)) = Some r'" "is_resolved (value r')" for r'
      proof -
        from keeps_resolved[OF k1 that] have "lookup s1 k (token (ds ! j)) = Some r'" .
        with vs(4) j that(2) show ?thesis by blast
      qed
      from vs(4) j have b: "is_resolved (Val (vs ! j)) \<longrightarrow>
           map_option value (lookup s' k (token (ds ! j))) = Some (Val (vs ! j))" by blast
      from Suc a b show ?thesis by simp
    qed
  qed
  moreover from keeps_trans[OF k1 vs(3)] have "keeps self log s' l'" .
  ultimately show ?case using vs(1,2) by (intro exI[of _ "v # vs"]) simp
qed

lemma update_at_update_at: "update_at k f (update_at k g self) = update_at k (\<lambda>R. f (g R)) self"
  by (induction k g self rule: update_at.induct) simp_all

lemma map_entry_map_entry:
  "AList.map_entry t f (AList.map_entry t g R) = AList.map_entry t (\<lambda>r. f (g r)) R"
  by (induction R) auto

lemma setValue_setValue [simp]: "setValue k t x (setValue k t y self) = setValue k t x self"
  by (simp add: setValue_def update_at_update_at map_entry_map_entry)
section \<open>The claims\<close>


text \<open>
  Claim C9. For a token that no injector of the chain has a record for, \<open>get\<close> with
  \<open>undefined\<close> passed as \<open>notFoundValue\<close> throws the not-found error, as \<open>get\<close> with the
  argument left out does: in the null injector the default of the parameter puts the
  sentinel back in place of \<open>undefined\<close>.
\<close>

theorem get_with_undefined_throws_not_found:
  assumes "absent tok self"
  shows "get sf call self tok (Some VUndefined) log =
           Some (Inl (not_found_error sf tok self), self, log) \<and>
         get sf call self tok (Some VUndefined) log = get sf call self tok None log \<and>
         NullInjector_get sf tok (Some VUndefined) = NullInjector_get sf tok None"
  using get_absent[OF assms, of sf call "Some VUndefined" log]
    get_undefined_eq_omitted[OF assms, of sf call log]
  by (simp add: NullInjector_get_def)

theorem get_with_undefined_throws_not_found_witness:
  "absent (TString ''T'')
     (StaticInjector 2 [(Injector, \<lparr>fn = IDENT, useNew = False, deps = [], value = Val (VInjector 2)\<rparr>)]
       (StaticInjector 1 [(Injector, \<lparr>fn = IDENT, useNew = False, deps = [], value = Val (VInjector 1)\<rparr>)]
         NullInjector)) \<and>
   get (\<lambda>t. ''T'') (\<lambda>log k new args. Return (VArr args))
     (StaticInjector 2 [(Injector, \<lparr>fn = IDENT, useNew = False, deps = [], value = Val (VInjector 2)\<rparr>)]
       (StaticInjector 1 [(Injector, \<lparr>fn = IDENT, useNew = False, deps = [], value = Val (VInjector 1)\<rparr>)]
         NullInjector))
     (TString ''T'') (Some VUndefined) [] =
   Some (Inl \<lparr>message = ''StaticInjectorError[T]: \<newline>  StaticInjectorError[T]: \<newline>    NullInjectorError: No provider for T!'',
              ngTempTokenPath = NullPath, ngTokenPath = Path [TString ''T''], frozen = False\<rparr>,
     StaticInjector 2 [(Injector, \<lparr>fn = IDENT, useNew = False, deps = [], value = Val (VInjector 2)\<rparr>)]
       (StaticInjector 1 [(Injector, \<lparr>fn = IDENT, useNew = False, deps = [], value = Val (VInjector 1)\<rparr>)]
         NullInjector), [])"
proof -
  let ?self = "StaticInjector 2 [(Injector, \<lparr>fn = IDENT, useNew = False, deps = [], value = Val (VInjector 2)\<rparr>)]
       (StaticInjector 1 [(Injector, \<lparr>fn = IDENT, useNew = False, deps = [], value = Val (VInjector 1)\<rparr>)]
         NullInjector)"
  have a: "absent (TString ''T'') ?self" by (simp add: Injector_def)
  have e: "not_found_error (\<lambda>t. ''T'') (TString ''T'') ?self =
      \<lparr>message = ''StaticInjectorError[T]: \<newline>  StaticInjectorError[T]: \<newline>    NullInjectorError: No provider for T!'',
              ngTempTokenPath = NullPath, ngTokenPath = Path [TString ''T''], frozen = False\<rparr>"
    by code_simp
  from get_with_undefined_throws_not_found[OF a, where sf="\<lambda>t. ''T''"
      and call="\<lambda>log k new args. Return (VArr args)" and log="[]"]
  have "get (\<lambda>t. ''T'') (\<lambda>log k new args. Return (VArr args)) ?self (TString ''T'') (Some VUndefined) [] =
      Some (Inl (not_found_error (\<lambda>t. ''T'') (TString ''T'') ?self), ?self, [])" by blast
  with a show ?thesis unfolding e by blast
qed

text \<open>
  Claim C4, as stated, fails for the fallback \<open>undefined\<close>, which differs from the throw
  sentinel: \<open>get(token, undefined)\<close> throws.
\<close>

theorem get_with_fallback_counterexample:
  "absent (TString ''T'')
     (StaticInjector 1 [(Injector, \<lparr>fn = IDENT, useNew = False, deps = [], value = Val (VInjector 1)\<rparr>)]
        NullInjector) \<and>
   VUndefined \<noteq> THROW_IF_NOT_FOUND \<and>
   get (\<lambda>t. ''T'') (\<lambda>log k new args. Return (VArr args))
     (StaticInjector 1 [(Injector, \<lparr>fn = IDENT, useNew = False, deps = [], value = Val (VInjector 1)\<rparr>)]
        NullInjector)
     (TString ''T'') (Some VUndefined) [] =
   Some (Inl \<lparr>message = ''StaticInjectorError[T]: \<newline>  NullInjectorError: No provider for T!'',
              ngTempTokenPath = NullPath, ngTokenPath = Path [TString ''T''], frozen = False\<rparr>,
     StaticInjector 1 [(Injector, \<lparr>fn = IDENT, useNew = False, deps = [], value = Val (VInjector 1)\<rparr>)]
        NullInjector, [])"
  by code_simp

text \<open>
  Claim C4, amended. For a token that neither the injector nor any of its ancestors has a
  record for: \<open>get\<close> without a second argument throws the not-found error; \<open>get\<close> with a
  fallback that is neither the throw sentinel nor \<open>undefined\<close> returns the fallback and
  changes nothing; and a dependency entry for the token with the \<open>Optional\<close> flag puts
  \<open>null\<close> into the argument list, after which the loop goes on with the next entry.
\<close>

theorem absent_token_resolution:
  assumes "absent tok (StaticInjector this R par)"
  shows "get sf call (StaticInjector this R par) tok None log =
           Some (Inl (not_found_error sf tok (StaticInjector this R par)),
                 StaticInjector this R par, log) \<and>
         (fallback \<noteq> THROW_IF_NOT_FOUND \<and> fallback \<noteq> VUndefined \<longrightarrow>
            get sf call (StaticInjector this R par) tok (Some fallback) log =
              Some (Inr fallback, StaticInjector this R par, log)) \<and>
         (token d = tok \<and> options d AND OptionFlags_Optional \<noteq> 0 \<and> depth par < n \<longrightarrow>
            resolveDeps sf call n (d # rest) acc (StaticInjector this R par) 0 (Nth 1) log =
              resolveDeps sf call n rest (acc @ [VNull]) (StaticInjector this R par) 0 (Nth 1) log)"
proof (intro conjI impI)
  show "get sf call (StaticInjector this R par) tok None log =
           Some (Inl (not_found_error sf tok (StaticInjector this R par)),
                 StaticInjector this R par, log)"
    using get_absent[OF assms, of sf call None log] by (simp add: NullInjector_get_def)
next
  assume "fallback \<noteq> THROW_IF_NOT_FOUND \<and> fallback \<noteq> VUndefined"
  then show "get sf call (StaticInjector this R par) tok (Some fallback) log =
              Some (Inr fallback, StaticInjector this R par, log)"
    using get_absent[OF assms, of sf call "Some fallback" log]
    by (cases fallback) (simp_all add: NullInjector_get_def)
next
  assume "token d = tok \<and> options d AND OptionFlags_Optional \<noteq> 0 \<and> depth par < n"
  with assms show "resolveDeps sf call n (d # rest) acc (StaticInjector this R par) 0 (Nth 1) log =
              resolveDeps sf call n rest (acc @ [VNull]) (StaticInjector this R par) 0 (Nth 1) log"
    using resolveDeps_Optional_absent[of "StaticInjector this R par" 0 d n sf call rest acc log]
    by (simp add: lookup_def)
qed

theorem absent_token_resolution_witness:
  "absent (TString ''T'')
     (StaticInjector 1 [(Injector, \<lparr>fn = IDENT, useNew = False, deps = [], value = Val (VInjector 1)\<rparr>)]
        NullInjector) \<and>
   VNum 7 \<noteq> THROW_IF_NOT_FOUND \<and> VNum 7 \<noteq> VUndefined \<and>
   token \<lparr>token = TString ''T'', options = 7\<rparr> = TString ''T'' \<and>
   options \<lparr>token = TString ''T'', options = 7\<rparr> AND OptionFlags_Optional \<noteq> 0 \<and>
   depth NullInjector < 1 \<and>
   get (\<lambda>t. ''T'') (\<lambda>log k new args. Return (VArr args))
     (StaticInjector 1 [(Injector, \<lparr>fn = IDENT, useNew = False, deps = [], value = Val (VInjector 1)\<rparr>)]
        NullInjector)
     (TString ''T'') None [] =
   Some (Inl \<lparr>message = ''StaticInjectorError[T]: \<newline>  NullInjectorError: No provider for T!'',
              ngTempTokenPath = NullPath, ngTokenPath = Path [TString ''T''], frozen = False\<rparr>,
     StaticInjector 1 [(Injector, \<lparr>fn = IDENT, useNew = False, deps = [], value = Val (VInjector 1)\<rparr>)]
        NullInjector, []) \<and>
   get (\<lambda>t. ''T'') (\<lambda>log k new args. Return (VArr args))
     (StaticInjector 1 [(Injector, \<lparr>fn = IDENT, useNew = False, deps = [], value = Val (VInjector 1)\<rparr>)]
        NullInjector)
     (TString ''T'') (Some (VNum 7)) [] =
   Some (Inr (VNum 7),
     StaticInjector 1 [(Injector, \<lparr>fn = IDENT, useNew = False, deps = [], value = Val (VInjector 1)\<rparr>)]
        NullInjector, []) \<and>
   resolveDeps (\<lambda>t. ''T'') (\<lambda>log k new args. Return (VArr args)) 1
     [\<lparr>token = TString ''T'', options = 7\<rparr>] []
     (StaticInjector 1 [(Injector, \<lparr>fn = IDENT, useNew = False, deps = [], value = Val (VInjector 1)\<rparr>)]
        NullInjector) 0 (Nth 1) [] =
   Some (Inr [VNull],
     StaticInjector 1 [(Injector, \<lparr>fn = IDENT, useNew = False, deps = [], value = Val (VInjector 1)\<rparr>)]
        NullInjector, [])"
proof -
  let ?R = "[(Injector, \<lparr>fn = IDENT, useNew = False, deps = [], value = Val (VInjector 1)\<rparr>)]"
  let ?d = "\<lparr>token = TString ''T'', options = 7\<rparr>"
  have a: "absent (TString ''T'') (StaticInjector 1 ?R NullInjector)" by (simp add: Injector_def)
  have f: "VNum 7 \<noteq> THROW_IF_NOT_FOUND \<and> VNum 7 \<noteq> VUndefined" by simp
  have o: "token ?d = TString ''T'' \<and> options ?d AND OptionFlags_Optional \<noteq> 0 \<and> depth NullInjector < 1"
    by (simp add: OptionFlags_Optional_def)
  have e: "not_found_error (\<lambda>t. ''T'') (TString ''T'') (StaticInjector 1 ?R NullInjector) =
      \<lparr>message = ''StaticInjectorError[T]: \<newline>  NullInjectorError: No provider for T!'',
              ngTempTokenPath = NullPath, ngTokenPath = Path [TString ''T''], frozen = False\<rparr>"
    by code_simp
  note t = absent_token_resolution[OF a, where sf="\<lambda>t. ''T''"
      and call="\<lambda>log k new args. Return (VArr args)" and log="[]" and fallback="VNum 7"
      and d="?d" and n=1 and rest="[]" and acc="[]"]
  from t have 1: "get (\<lambda>t. ''T'') (\<lambda>log k new args. Return (VArr args)) (StaticInjector 1 ?R NullInjector)
      (TString ''T'') None [] =
      Some (Inl (not_found_error (\<lambda>t. ''T'') (TString ''T'') (StaticInjector 1 ?R NullInjector)),
            StaticInjector 1 ?R NullInjector, [])" by blast
  from t f have 2: "get (\<lambda>t. ''T'') (\<lambda>log k new args. Return (VArr args)) (StaticInjector 1 ?R NullInjector)
      (TString ''T'') (Some (VNum 7)) [] = Some (Inr (VNum 7), StaticInjector 1 ?R NullInjector, [])"
    by blast
  from t o have "resolveDeps (\<lambda>t. ''T'') (\<lambda>log k new args. Return (VArr args)) 1 [?d] []
      (StaticInjector 1 ?R NullInjector) 0 (Nth 1) [] =
     resolveDeps (\<lambda>t. ''T'') (\<lambda>log k new args. Return (VArr args)) 1 [] ([] @ [VNull])
      (StaticInjector 1 ?R NullInjector) 0 (Nth 1) []" by blast
  then have 3: "resolveDeps (\<lambda>t. ''T'') (\<lambda>log k new args. Return (VArr args)) 1 [?d] []
      (StaticInjector 1 ?R NullInjector) 0 (Nth 1) [] =
      Some (Inr [VNull], StaticInjector 1 ?R NullInjector, [])" by simp
  from o have o1: "token ?d = TString ''T''" and o2: "options ?d AND OptionFlags_Optional \<noteq> 0"
    and o3: "depth NullInjector < 1" by blast+
  show ?thesis
    apply (rule conjI[OF a])
    apply (rule conjI[OF f[THEN conjunct1]])
    apply (rule conjI[OF f[THEN conjunct2]])
    apply (rule conjI[OF o1])
    apply (rule conjI[OF o2])
    apply (rule conjI[OF o3])
    apply (rule conjI[OF 1[unfolded e]])
    apply (rule conjI[OF 2])
    apply (rule 3)
    done
qed

text \<open>
  Claim C8, as stated, fails when the list holds a provider for the token \<open>Injector\<close>:
  it replaces the entry put there by the constructor, and \<open>get(Injector)\<close> returns what
  that provider gives.
\<close>

theorem injector_token_counterexample:
  "StaticInjector_new 1
     [PObject \<lparr>oid = 10, provide = Some Injector, useValue = Some (VNum 42), useFactory = None,
               useExisting = None, useClass = None, providerDeps = None, multi = False\<rparr>] None =
     Inr (StaticInjector 1
            [(Injector, \<lparr>fn = IDENT, useNew = False, deps = [], value = Val (VNum 42)\<rparr>)]
            NullInjector) \<and>
   get (\<lambda>t. ''T'') (\<lambda>log k new args. Return (VArr args))
     (StaticInjector 1
        [(Injector, \<lparr>fn = IDENT, useNew = False, deps = [], value = Val (VNum 42)\<rparr>)]
        NullInjector) Injector None [] =
     Some (Inr (VNum 42),
           StaticInjector 1
             [(Injector, \<lparr>fn = IDENT, useNew = False, deps = [], value = Val (VNum 42)\<rparr>)]
             NullInjector, []) \<and>
   VNum 42 \<noteq> VInjector 1"
  by code_simp

text \<open>
  Claim C8, amended. For every injector constructed from a list of providers none of
  which is given for the token \<open>Injector\<close>, the map holds under \<open>Injector\<close> the entry of
  the constructor (identity function, no dependencies, the injector itself as value), and
  \<open>get(Injector)\<close> returns the injector itself and changes nothing.
\<close>

theorem injector_token_preseeded:
  assumes "StaticInjector_new this ps parent = Inr self"
    and "Some Injector \<notin> provide ` set (flatten (PArray ps))"
  shows "\<exists>R par. self = StaticInjector this R par \<and>
           map_of R Injector =
             Some \<lparr>fn = IDENT, useNew = False, deps = [], value = Val (VInjector this)\<rparr> \<and>
           get sf call self Injector arg log = Some (Inr (VInjector this), self, log)"
proof -
  let ?r = "\<lparr>fn = IDENT, useNew = False, deps = [], value = Val (VInjector this)\<rparr>"
  from assms(1) obtain R where
    R: "recursivelyProcessProviders (AList.update Injector ?r []) (PArray ps) = Inr R"
    and self: "self = StaticInjector this R (case parent of None \<Rightarrow> NullInjector | Some p \<Rightarrow> p)"
    by (auto simp: StaticInjector_new_def split: sum.splits)
  from process_success_plain(1)[OF R] have "plain (PArray ps)" .
  from process_flatten(1)[OF this] R have
    "processArray (AList.update Injector ?r []) (map PObject (flatten (PArray ps))) = Inr R"
    by simp
  from processArray_other[OF this assms(2)] have m: "map_of R Injector = Some ?r"
    by (simp add: Injector_def)
  from get_cached[OF m, of "VInjector this" sf call this _ arg log] self m show ?thesis by simp
qed

theorem injector_token_preseeded_witness:
  "StaticInjector_new 1
     [PObject \<lparr>oid = 10, provide = Some (TString ''A''), useValue = Some (VNum 42), useFactory = None,
               useExisting = None, useClass = None, providerDeps = None, multi = False\<rparr>] None =
     Inr (StaticInjector 1
            [(Injector, \<lparr>fn = IDENT, useNew = False, deps = [], value = Val (VInjector 1)\<rparr>),
             (TString ''A'', \<lparr>fn = IDENT, useNew = False, deps = [], value = Val (VNum 42)\<rparr>)]
            NullInjector) \<and>
   Some Injector \<notin> provide ` set (flatten (PArray
     [PObject \<lparr>oid = 10, provide = Some (TString ''A''), useValue = Some (VNum 42), useFactory = None,
               useExisting = None, useClass = None, providerDeps = None, multi = False\<rparr>])) \<and>
   get (\<lambda>t. ''T'') (\<lambda>log k new args. Return (VArr args))
     (StaticInjector 1
            [(Injector, \<lparr>fn = IDENT, useNew = False, deps = [], value = Val (VInjector 1)\<rparr>),
             (TString ''A'', \<lparr>fn = IDENT, useNew = False, deps = [], value = Val (VNum 42)\<rparr>)]
            NullInjector) Injector None [] =
     Some (Inr (VInjector 1),
       StaticInjector 1
            [(Injector, \<lparr>fn = IDENT, useNew = False, deps = [], value = Val (VInjector 1)\<rparr>),
             (TString ''A'', \<lparr>fn = IDENT, useNew = False, deps = [], value = Val (VNum 42)\<rparr>)]
            NullInjector, [])"
proof -
  have b: "StaticInjector_new 1
     [PObject \<lparr>oid = 10, provide = Some (TString ''A''), useValue = Some (VNum 42), useFactory = None,
               useExisting = None, useClass = None, providerDeps = None, multi = False\<rparr>] None =
     Inr (StaticInjector 1
            [(Injector, \<lparr>fn = IDENT, useNew = False, deps = [], value = Val (VInjector 1)\<rparr>),
             (TString ''A'', \<lparr>fn = IDENT, useNew = False, deps = [], value = Val (VNum 42)\<rparr>)]
            NullInjector)"
    by code_simp
  have n: "Some Injector \<notin> provide ` set (flatten (PArray
     [PObject \<lparr>oid = 10, provide = Some (TString ''A''), useValue = Some (VNum 42), useFactory = None,
               useExisting = None, useClass = None, providerDeps = None, multi = False\<rparr>]))"
    by (simp add: Injector_def)
  from injector_token_preseeded[OF b n, of "\<lambda>t. ''T''" "\<lambda>log k new args. Return (VArr args)" None "[]"]
    b n show ?thesis by simp
qed

text \<open>
  Claim C10 fails in the code for a function that throws a symbol. The injector has one
  record, for \<open>A\<close>, with a factory that throws \<open>Symbol()\<close>. In the \<open>catch\<close> block of
  \<open>tryResolveToken\<close> the statement \<open>e = new Error(e)\<close> throws a \<open>TypeError\<close>, so the
  statement \<open>record.value = EMPTY\<close> after it does not run: \<open>get(A)\<close> has ended, by
  throwing, and the record of \<open>A\<close> is still in progress.
\<close>

theorem thrown_symbol_leaves_record_in_progress:
  "settled_inj (StaticInjector 1
      [(TString ''A'', \<lparr>fn = Fn 1, useNew = False, deps = [], value = EMPTY\<rparr>)] NullInjector) \<and>
   get (\<lambda>t. case t of TString s \<Rightarrow> s | TUndefined \<Rightarrow> ''undefined'' | _ \<Rightarrow> ''?'')
     (\<lambda>log f new args. Throw ThrowSymbol)
     (StaticInjector 1
        [(TString ''A'', \<lparr>fn = Fn 1, useNew = False, deps = [], value = EMPTY\<rparr>)] NullInjector)
     (TString ''A'') None [] =
   Some (Inl \<lparr>message = ''StaticInjectorError[undefined]: \<newline>  Cannot convert a Symbol value to a string'',
              ngTempTokenPath = NullPath, ngTokenPath = NoPath, frozen = False\<rparr>,
         StaticInjector 1
           [(TString ''A'', \<lparr>fn = Fn 1, useNew = False, deps = [], value = CIRCULAR\<rparr>)] NullInjector,
         [(0, TString ''A'', Fn 1, False, [])]) \<and>
   \<not> settled_inj (StaticInjector 1
      [(TString ''A'', \<lparr>fn = Fn 1, useNew = False, deps = [], value = CIRCULAR\<rparr>)] NullInjector)"
  by code_simp

text \<open>
  Claim C5, as stated, fails for an entry declared with \<open>SkipSelf\<close> and \<open>Self\<close>: both bits
  are cleared, and the entry is resolved by the null injector. Here the child and its
  parent both provide \<open>T\<close>, the factory of \<open>A\<close> in the child is declared with
  \<open>deps: [[SkipSelf, Self, T]]\<close>, and \<open>get(A)\<close> on the child throws the not-found error
  for \<open>T\<close> instead of taking the value of the parent.
\<close>

theorem skipSelf_with_self_counterexample:
  "StaticInjector_new 2
     [PObject (value_provider 10 (TString ''T'') (VNum 1) False),
      PObject (factory_provider 11 (TString ''A'') 7
                 [DepArray 5 [SkipSelf, Self, Annotation (TString ''T'')]])]
     (Some (StaticInjector 1
        [(Injector, \<lparr>fn = IDENT, useNew = False, deps = [], value = Val (VInjector 1)\<rparr>),
         (TString ''T'', \<lparr>fn = IDENT, useNew = False, deps = [], value = Val (VNum 2)\<rparr>)]
        NullInjector)) =
   Inr (StaticInjector 2
     [(Injector, \<lparr>fn = IDENT, useNew = False, deps = [], value = Val (VInjector 2)\<rparr>),
      (TString ''T'', \<lparr>fn = IDENT, useNew = False, deps = [], value = Val (VNum 1)\<rparr>),
      (TString ''A'', \<lparr>fn = Fn 7, useNew = False,
         deps = [\<lparr>token = TString ''T'', options = 0\<rparr>], value = EMPTY\<rparr>)]
     (StaticInjector 1
        [(Injector, \<lparr>fn = IDENT, useNew = False, deps = [], value = Val (VInjector 1)\<rparr>),
         (TString ''T'', \<lparr>fn = IDENT, useNew = False, deps = [], value = Val (VNum 2)\<rparr>)]
        NullInjector)) \<and>
   get (\<lambda>t. case t of TString s \<Rightarrow> s | _ \<Rightarrow> ''?'') (\<lambda>log f new args. Return (VArr args))
     (StaticInjector 2
       [(Injector, \<lparr>fn = IDENT, useNew = False, deps = [], value = Val (VInjector 2)\<rparr>),
        (TString ''T'', \<lparr>fn = IDENT, useNew = False, deps = [], value = Val (VNum 1)\<rparr>),
        (TString ''A'', \<lparr>fn = Fn 7, useNew = False,
           deps = [\<lparr>token = TString ''T'', options = 0\<rparr>], value = EMPTY\<rparr>)]
       (StaticInjector 1
          [(Injector, \<lparr>fn = IDENT, useNew = False, deps = [], value = Val (VInjector 1)\<rparr>),
           (TString ''T'', \<lparr>fn = IDENT, useNew = False, deps = [], value = Val (VNum 2)\<rparr>)]
          NullInjector))
     (TString ''A'') None [] =
   Some (Inl \<lparr>message = ''StaticInjectorError[A -> T]: \<newline>  NullInjectorError: No provider for T!'',
              ngTempTokenPath = NullPath, ngTokenPath = Path [TString ''A'', TString ''T''],
              frozen = False\<rparr>,
     StaticInjector 2
       [(Injector, \<lparr>fn = IDENT, useNew = False, deps = [], value = Val (VInjector 2)\<rparr>),
        (TString ''T'', \<lparr>fn = IDENT, useNew = False, deps = [], value = Val (VNum 1)\<rparr>),
        (TString ''A'', \<lparr>fn = Fn 7, useNew = False,
           deps = [\<lparr>token = TString ''T'', options = 0\<rparr>], value = EMPTY\<rparr>)]
       (StaticInjector 1
          [(Injector, \<lparr>fn = IDENT, useNew = False, deps = [], value = Val (VInjector 1)\<rparr>),
           (TString ''T'', \<lparr>fn = IDENT, useNew = False, deps = [], value = Val (VNum 2)\<rparr>)]
          NullInjector), [])"
  by code_simp

text \<open>
  Claim C5, amended. A dependency entry declared with the \<open>SkipSelf\<close> modifier is resolved
  without a look at the map of the requesting injector, whatever that map holds under the
  token. When the entry is not also declared with \<open>Self\<close>, it is resolved by the \<open>get\<close> of
  the parent alone: it takes the value the parent returns, which is the value of the
  parent's record when that is resolved, or throws what the parent throws with the token
  put in front of the path. When the entry is also declared with \<open>Self\<close>, the parent is
  not asked either: the null injector answers, so the entry throws the not-found error,
  or is \<open>null\<close> when it is declared \<open>Optional\<close> as well.
\<close>

theorem skipSelf_resolves_in_parent:
  assumes "SkipSelf \<in> set annotations"
  shows "resolveDeps sf call (Suc m) (computeDep (DepArray a annotations) # rest) acc self k
           (Nth (Suc k)) log =
           (case get_within sf call m self
                   (if Self \<in> set annotations then NULL_INJECTOR else Nth (Suc k))
                   (token (computeDep (DepArray a annotations)))
                   (Some (notFoundValue_of (options (computeDep (DepArray a annotations))))) log of
              None \<Rightarrow> None
            | Some (Inl e, self1, log1) \<Rightarrow>
                Some (Inl (add_path (token (computeDep (DepArray a annotations))) e), self1, log1)
            | Some (Inr v, self1, log1) \<Rightarrow>
                resolveDeps sf call (Suc m) rest (acc @ [v]) self1 k (Nth (Suc k)) log1) \<and>
         (Self \<notin> set annotations \<and>
          lookup self (Suc k) (token (computeDep (DepArray a annotations))) = Some r \<and>
          value r = Val v \<and> \<not> eq_CIRCULAR (Val v) \<longrightarrow>
            resolveDeps sf call (Suc m) (computeDep (DepArray a annotations) # rest) acc self k
              (Nth (Suc k)) log =
            resolveDeps sf call (Suc m) rest (acc @ [v]) self k (Nth (Suc k)) log) \<and>
         (Self \<in> set annotations \<longrightarrow>
            resolveDeps sf call (Suc m) (computeDep (DepArray a annotations) # rest) acc self k
              (Nth (Suc k)) log =
            (if Optional \<in> set annotations
             then resolveDeps sf call (Suc m) rest (acc @ [VNull]) self k (Nth (Suc k)) log
             else Some (Inl (add_path (token (computeDep (DepArray a annotations)))
                               (not_found_error sf (token (computeDep (DepArray a annotations)))
                                  NullInjector)), self, log)))"
proof -
  let ?d = "computeDep (DepArray a annotations)"
  from computeDep_SkipSelf[OF assms] have s: "options ?d AND OptionFlags_CheckSelf = 0" .
  note eq = resolveDeps_not_CheckSelf[OF s, of sf call m rest acc self k "Nth (Suc k)" log]
  have 1: "resolveDeps sf call (Suc m) (?d # rest) acc self k (Nth (Suc k)) log =
           (case get_within sf call m self
                   (if Self \<in> set annotations then NULL_INJECTOR else Nth (Suc k))
                   (token ?d) (Some (notFoundValue_of (options ?d))) log of
              None \<Rightarrow> None
            | Some (Inl e, self1, log1) \<Rightarrow> Some (Inl (add_path (token ?d) e), self1, log1)
            | Some (Inr v, self1, log1) \<Rightarrow>
                resolveDeps sf call (Suc m) rest (acc @ [v]) self1 k (Nth (Suc k)) log1)"
    using eq by (simp add: computeDep_Self)
  have 2: "resolveDeps sf call (Suc m) (?d # rest) acc self k (Nth (Suc k)) log =
            resolveDeps sf call (Suc m) rest (acc @ [v]) self k (Nth (Suc k)) log"
    if "Self \<notin> set annotations \<and> lookup self (Suc k) (token ?d) = Some r \<and>
          value r = Val v \<and> \<not> eq_CIRCULAR (Val v)"
  proof -
    from that have "get_within sf call m self (Nth (Suc k)) (token ?d)
        (Some (notFoundValue_of (options ?d))) log = Some (Inr v, self, log)"
      by (intro get_within_cached[of _ _ _ r]) simp_all
    with 1 that show ?thesis by simp
  qed
  have 3: "resolveDeps sf call (Suc m) (?d # rest) acc self k (Nth (Suc k)) log =
            (if Optional \<in> set annotations
             then resolveDeps sf call (Suc m) rest (acc @ [VNull]) self k (Nth (Suc k)) log
             else Some (Inl (add_path (token ?d) (not_found_error sf (token ?d) NullInjector)),
                        self, log))"
    if "Self \<in> set annotations"
  proof -
    have o: "options ?d AND OptionFlags_Optional \<noteq> 0 \<longleftrightarrow> Optional \<in> set annotations"
      by (rule computeDep_Optional)
    from 1 that o show ?thesis
      by (simp add: get_within_NULL NullInjector_get_def notFoundValue_of_def)
  qed
  from 1 2 3 show ?thesis by blast
qed


theorem skipSelf_resolves_in_parent_witness:
  "SkipSelf \<in> set [SkipSelf, Annotation (TString ''T'')] \<and>
   Self \<notin> set [SkipSelf, Annotation (TString ''T'')] \<and>
   lookup (StaticInjector 2
             [(TString ''T'', \<lparr>fn = IDENT, useNew = False, deps = [], value = Val (VNum 1)\<rparr>)]
             (StaticInjector 1
                [(TString ''T'', \<lparr>fn = IDENT, useNew = False, deps = [], value = Val (VNum 2)\<rparr>)]
                NullInjector)) (Suc 0)
      (token (computeDep (DepArray 5 [SkipSelf, Annotation (TString ''T'')]))) =
     Some \<lparr>fn = IDENT, useNew = False, deps = [], value = Val (VNum 2)\<rparr> \<and>
   \<not> eq_CIRCULAR (Val (VNum 2)) \<and>
   resolveDeps (\<lambda>t. ''T'') (\<lambda>log f new args. Return (VArr args)) (Suc 0)
     [computeDep (DepArray 5 [SkipSelf, Annotation (TString ''T'')])] []
     (StaticInjector 2
        [(TString ''T'', \<lparr>fn = IDENT, useNew = False, deps = [], value = Val (VNum 1)\<rparr>)]
        (StaticInjector 1
           [(TString ''T'', \<lparr>fn = IDENT, useNew = False, deps = [], value = Val (VNum 2)\<rparr>)]
           NullInjector)) 0 (Nth (Suc 0)) [] =
   Some (Inr [VNum 2],
     StaticInjector 2
        [(TString ''T'', \<lparr>fn = IDENT, useNew = False, deps = [], value = Val (VNum 1)\<rparr>)]
        (StaticInjector 1
           [(TString ''T'', \<lparr>fn = IDENT, useNew = False, deps = [], value = Val (VNum 2)\<rparr>)]
           NullInjector), []) \<and>
   SkipSelf \<in> set [SkipSelf, Self, Annotation (TString ''T'')] \<and>
   Self \<in> set [SkipSelf, Self, Annotation (TString ''T'')] \<and>
   resolveDeps (\<lambda>t. ''T'') (\<lambda>log f new args. Return (VArr args)) (Suc 0)
     [computeDep (DepArray 5 [SkipSelf, Self, Annotation (TString ''T'')])] []
     (StaticInjector 2
        [(TString ''T'', \<lparr>fn = IDENT, useNew = False, deps = [], value = Val (VNum 1)\<rparr>)]
        (StaticInjector 1
           [(TString ''T'', \<lparr>fn = IDENT, useNew = False, deps = [], value = Val (VNum 2)\<rparr>)]
           NullInjector)) 0 (Nth (Suc 0)) [] =
   Some (Inl \<lparr>message = ''NullInjectorError: No provider for T!'',
              ngTempTokenPath = Path [TString ''T''], ngTokenPath = NoPath, frozen = False\<rparr>,
     StaticInjector 2
        [(TString ''T'', \<lparr>fn = IDENT, useNew = False, deps = [], value = Val (VNum 1)\<rparr>)]
        (StaticInjector 1
           [(TString ''T'', \<lparr>fn = IDENT, useNew = False, deps = [], value = Val (VNum 2)\<rparr>)]
           NullInjector), [])"
proof -
  let ?self = "StaticInjector 2
        [(TString ''T'', \<lparr>fn = IDENT, useNew = False, deps = [], value = Val (VNum 1)\<rparr>)]
        (StaticInjector 1
           [(TString ''T'', \<lparr>fn = IDENT, useNew = False, deps = [], value = Val (VNum 2)\<rparr>)]
           NullInjector)"
  let ?sf = "\<lambda>t :: token. ''T''"
  let ?call = "\<lambda>log f new args. Return (VArr args)"
  let ?A = "[SkipSelf, Annotation (TString ''T'')]"
  let ?B = "[SkipSelf, Self, Annotation (TString ''T'')]"
  have a1: "SkipSelf \<in> set ?A" by simp
  have a2: "Self \<notin> set ?A" by simp
  have a3: "lookup ?self (Suc 0) (token (computeDep (DepArray 5 ?A))) =
     Some \<lparr>fn = IDENT, useNew = False, deps = [], value = Val (VNum 2)\<rparr>"
    by code_simp
  have a4: "\<not> eq_CIRCULAR (Val (VNum 2))" by simp
  have v: "value \<lparr>fn = IDENT, useNew = False, deps = [], value = Val (VNum 2)\<rparr> = Val (VNum 2)"
    by simp
  from skipSelf_resolves_in_parent[OF a1, where a=5 and sf="?sf" and call="?call" and m=0
      and rest="[]" and acc="[]" and self="?self" and k=0 and log="[]"
      and r="\<lparr>fn = IDENT, useNew = False, deps = [], value = Val (VNum 2)\<rparr>" and v="VNum 2",
      THEN conjunct2, THEN conjunct1, rule_format, OF conjI[OF a2 conjI[OF a3 conjI[OF v a4]]]]
  have 1: "resolveDeps ?sf ?call (Suc 0) [computeDep (DepArray 5 ?A)] [] ?self 0 (Nth (Suc 0)) [] =
      Some (Inr [VNum 2], ?self, [])" by simp
  have b1: "SkipSelf \<in> set ?B" by simp
  have b2: "Self \<in> set ?B" by simp
  have b3: "Optional \<notin> set ?B" by simp
  have e: "add_path (token (computeDep (DepArray 5 ?B)))
        (not_found_error ?sf (token (computeDep (DepArray 5 ?B))) NullInjector) =
     \<lparr>message = ''NullInjectorError: No provider for T!'',
              ngTempTokenPath = Path [TString ''T''], ngTokenPath = NoPath, frozen = False\<rparr>"
    by code_simp
  from skipSelf_resolves_in_parent[OF b1, where a=5 and sf="?sf" and call="?call" and m=0
      and rest="[]" and acc="[]" and self="?self" and k=0 and log="[]",
      THEN conjunct2, THEN conjunct2, rule_format, OF b2] b3
  have 2: "resolveDeps ?sf ?call (Suc 0) [computeDep (DepArray 5 ?B)] [] ?self 0 (Nth (Suc 0)) [] =
      Some (Inl (add_path (token (computeDep (DepArray 5 ?B)))
        (not_found_error ?sf (token (computeDep (DepArray 5 ?B))) NullInjector)), ?self, [])"
    by simp
  show ?thesis
    apply (rule conjI[OF a1])
    apply (rule conjI[OF a2])
    apply (rule conjI[OF a3])
    apply (rule conjI[OF a4])
    apply (rule conjI[OF 1])
    apply (rule conjI[OF b1])
    apply (rule conjI[OF b2])
    apply (rule 2[unfolded e])
    done
qed

subsection \<open>C1: a resolved record is a singleton of its injector\<close>




subsection \<open>C7: dependencies are resolved in declaration order\<close>

lemma resolveDeps_append:
  "resolveDeps sf call n (ds1 @ ds2) acc self k par log =
     (case resolveDeps sf call n ds1 acc self k par log of
        None \<Rightarrow> None
      | Some (Inl e, self1, log1) \<Rightarrow> Some (Inl e, self1, log1)
      | Some (Inr args, self1, log1) \<Rightarrow> resolveDeps sf call n ds2 args self1 k par log1)"
proof (induction ds1 arbitrary: acc self log)
  case Nil
  show ?case by simp
next
  case (Cons d ds1)
  show ?case
  proof (cases "resolveDep sf call n d self k par log")
    case None
    then show ?thesis by (simp add: resolveDeps_step)
  next
    case (Some x)
    obtain res s1 l1 where x: "x = (res, s1, l1)" by (cases x)
    show ?thesis
    proof (cases res)
      case (Inl e)
      with Some x show ?thesis by (simp add: resolveDeps_step)
    next
      case (Inr v)
      with Some x show ?thesis by (simp add: resolveDeps_step Cons.IH)
    qed
  qed
qed



subsection \<open>C3: multi providers\<close>




end
